theory Spec2Isabelle
  imports Main "HOL-Library.Sublist" "HOL-Library.Code_Target_Nat"
begin

section \<open>JavaScript values and the built-ins the loggers call\<close>

text \<open>
  The payload of a log call is a JavaScript object whose fields are \<open>unknown\<close>. The
  model covers the payloads that are JSON data: null, booleans, strings, arrays and
  objects. Numbers are doubles (floating point) and are left out. An object is the list
  of its own enumerable properties in enumeration order. Strings are lists of 8-bit
  characters, the bytes a stream holds.
\<close>

datatype json = JNull | JBool bool | JStr string | JArr "json list" | JObj "(string \<times> json) list"

text \<open>
  JavaScript enumerates the own properties of an object with the array indices first, in
  ascending numeric order, and then the other keys in the order of their creation. An
  array index is a key that is the decimal numeral, without leading zeros, of an integer
  below \<open>2^32 - 1\<close>.
\<close>

definition is_digit :: "char \<Rightarrow> bool" where
  "is_digit c \<longleftrightarrow> 48 \<le> (of_char c :: nat) \<and> (of_char c :: nat) \<le> 57"

definition digits_value :: "string \<Rightarrow> nat" where
  "digits_value k = foldl (\<lambda>n c. 10 * n + (of_char c - 48)) 0 k"

definition array_index :: "string \<Rightarrow> nat option" where
  "array_index k =
     (if k \<noteq> [] \<and> list_all is_digit k \<and> (length k = 1 \<or> hd k \<noteq> CHR ''0'')
         \<and> digits_value k < 4294967295
      then Some (digits_value k) else None)"

definition js_order :: "(string \<times> 'v) list \<Rightarrow> (string \<times> 'v) list" where
  "js_order ps =
     sort_key (\<lambda>p. case array_index (fst p) of None \<Rightarrow> 0 | Some i \<Rightarrow> i)
       (filter (\<lambda>p. array_index (fst p) \<noteq> None) ps)
     @ filter (\<lambda>p. array_index (fst p) = None) ps"

text \<open>
  The values that are JavaScript values: an object never has the same key twice, and its
  properties stand in enumeration order.
\<close>

fun wf_json :: "json \<Rightarrow> bool" where
  "wf_json (JArr vs) = list_all wf_json vs"
| "wf_json (JObj kvs) =
     (distinct (map fst kvs) \<and> js_order kvs = kvs \<and> list_all (\<lambda>kv. wf_json (snd kv)) kvs)"
| "wf_json v = True"

text \<open>
  Defining a property on an object: an existing key keeps its place in the order of
  creation and takes the new value, a new key is created last. An object spread
  \<open>{...a, ...b}\<close> defines the properties of \<open>b\<close> one by one on a copy of \<open>a\<close>; the
  result enumerates its array indices first.
\<close>

fun upsert :: "'k \<Rightarrow> 'v \<Rightarrow> ('k \<times> 'v) list \<Rightarrow> ('k \<times> 'v) list" where
  "upsert k v [] = [(k, v)]"
| "upsert k v (p # ps) = (if fst p = k then (k, v) # ps else p # upsert k v ps)"

definition spread :: "(string \<times> 'v) list \<Rightarrow> (string \<times> 'v) list \<Rightarrow> (string \<times> 'v) list" where
  "spread a b = js_order (fold (\<lambda>kv acc. upsert (fst kv) (snd kv) acc) b a)"

function show_nat :: "nat \<Rightarrow> string" where
  "show_nat n = (if n < 10 then [char_of (48 + n)] else show_nat (n div 10) @ [char_of (48 + n mod 10)])"
  by pat_completeness auto
termination
  by (relation "measure id") auto

text \<open>
  The own enumerable properties a spread copies from a value: the fields of an object,
  the indexed elements of an array, the indexed characters of a string, and nothing from
  null or a boolean.
\<close>

fun own_properties :: "json \<Rightarrow> (string \<times> json) list" where
  "own_properties (JObj kvs) = kvs"
| "own_properties (JArr vs) = map (\<lambda>(i, v). (show_nat i, v)) (zip [0..<length vs] vs)"
| "own_properties (JStr s) = map (\<lambda>(i, c). (show_nat i, JStr [c])) (zip [0..<length s] s)"
| "own_properties v = []"

subsection \<open>JSON.stringify\<close>

definition dquote :: char where
  "dquote = CHR 0x22"

definition backslash :: char where
  "backslash = CHR 0x5C"

definition hex_digit :: "nat \<Rightarrow> char" where
  "hex_digit n = (if n < 10 then char_of (48 + n) else char_of (87 + n))"

definition escape_char :: "char \<Rightarrow> string" where
  "escape_char c =
     (if c = dquote then [backslash, dquote]
      else if c = backslash then [backslash, backslash]
      else if c = CHR 0x08 then [backslash, CHR ''b'']
      else if c = CHR 0x0C then [backslash, CHR ''f'']
      else if c = CHR 0x0A then [backslash, CHR ''n'']
      else if c = CHR 0x0D then [backslash, CHR ''r'']
      else if c = CHR 0x09 then [backslash, CHR ''t'']
      else if (of_char c :: nat) < 32
        then [backslash, CHR ''u'', CHR ''0'', CHR ''0'',
              hex_digit (of_char c div 16), hex_digit (of_char c mod 16)]
      else [c])"

definition quote :: "string \<Rightarrow> string" where
  "quote s = dquote # concat (map escape_char s) @ [dquote]"

fun intercalate :: "string \<Rightarrow> string list \<Rightarrow> string" where
  "intercalate sep [] = []"
| "intercalate sep [x] = x"
| "intercalate sep (x # y # ys) = x @ sep @ intercalate sep (y # ys)"

fun JSON_stringify :: "json \<Rightarrow> string" where
  "JSON_stringify JNull = ''null''"
| "JSON_stringify (JBool b) = (if b then ''true'' else ''false'')"
| "JSON_stringify (JStr s) = quote s"
| "JSON_stringify (JArr vs) = ''['' @ intercalate '','' (map JSON_stringify vs) @ '']''"
| "JSON_stringify (JObj kvs) =
     ''{'' @ intercalate '','' (map (\<lambda>(k, v). quote k @ '':'' @ JSON_stringify v) kvs) @ ''}''"

subsection \<open>JSON.parse\<close>

text \<open>
  A recursive-descent parser of the JSON grammar over the values of the model, white
  space included. \<open>None\<close> is the SyntaxError that JSON.parse throws. The fuel bounds the
  recursion; \<open>JSON_parse\<close> gives it the length of the text, which is always enough
  (\<open>JSON_parse_stringify\<close> below). An object is built by defining its members in the
  order of the text, so a repeated key keeps its first place and its last value, and the
  result enumerates its array indices first. The values of the model have no numbers and
  its characters have 8 bits: a number literal or a \<open>\u\<close> escape of a code unit above
  \<open>00ff\<close>, which JSON.parse accepts, is not a text of the model, and \<open>JSON_parse\<close> yields
  \<open>None\<close> for it. Every text that JSON.parse rejects, \<open>JSON_parse\<close> rejects.
\<close>

definition is_ws :: "char \<Rightarrow> bool" where
  "is_ws c \<longleftrightarrow> c = CHR '' '' \<or> c = CHR 0x09 \<or> c = CHR 0x0A \<or> c = CHR 0x0D"

definition skip_ws :: "string \<Rightarrow> string" where
  "skip_ws cs = dropWhile is_ws cs"

definition hex_val :: "char \<Rightarrow> nat option" where
  "hex_val c =
     (let n = (of_char c :: nat) in
      if 48 \<le> n \<and> n \<le> 57 then Some (n - 48)
      else if 97 \<le> n \<and> n \<le> 102 then Some (n - 87)
      else if 65 \<le> n \<and> n \<le> 70 then Some (n - 55)
      else None)"

definition unicode_escape :: "char \<Rightarrow> char \<Rightarrow> char \<Rightarrow> char \<Rightarrow> char option" where
  "unicode_escape a b c d =
     (case (hex_val a, hex_val b, hex_val c, hex_val d) of
        (Some x, Some y, Some z, Some w) \<Rightarrow>
          (if x = 0 \<and> y = 0 then Some (char_of (16 * z + w)) else None)
      | _ \<Rightarrow> None)"

definition simple_escape :: "char \<Rightarrow> char option" where
  "simple_escape e =
     (if e = dquote then Some dquote
      else if e = backslash then Some backslash
      else if e = CHR ''/'' then Some CHR ''/''
      else if e = CHR ''b'' then Some (CHR 0x08)
      else if e = CHR ''f'' then Some (CHR 0x0C)
      else if e = CHR ''n'' then Some (CHR 0x0A)
      else if e = CHR ''r'' then Some (CHR 0x0D)
      else if e = CHR ''t'' then Some (CHR 0x09)
      else None)"

definition cons_fst :: "char \<Rightarrow> (string \<times> string) option \<Rightarrow> (string \<times> string) option" where
  "cons_fst c r = map_option (\<lambda>(s, rest). (c # s, rest)) r"

fun parse_string_body :: "string \<Rightarrow> (string \<times> string) option" where
  "parse_string_body [] = None"
| "parse_string_body (c # cs) =
     (if c = dquote then Some ([], cs)
      else if c = backslash then
        (case cs of
           [] \<Rightarrow> None
         | e # cs1 \<Rightarrow>
             (if e = CHR ''u'' then
                (case cs1 of
                   h1 # h2 # h3 # h4 # cs2 \<Rightarrow>
                     (case unicode_escape h1 h2 h3 h4 of
                        None \<Rightarrow> None
                      | Some u \<Rightarrow> cons_fst u (parse_string_body cs2))
                 | _ \<Rightarrow> None)
              else
                (case simple_escape e of
                   None \<Rightarrow> None
                 | Some u \<Rightarrow> cons_fst u (parse_string_body cs1))))
      else if (of_char c :: nat) < 32 then None
      else cons_fst c (parse_string_body cs))"

fun parse_value :: "nat \<Rightarrow> string \<Rightarrow> (json \<times> string) option"
and parse_elements :: "nat \<Rightarrow> json list \<Rightarrow> string \<Rightarrow> (json \<times> string) option"
and parse_members :: "nat \<Rightarrow> (string \<times> json) list \<Rightarrow> string \<Rightarrow> (json \<times> string) option"
where
  "parse_value 0 cs = None"
| "parse_value (Suc n) cs =
     (case skip_ws cs of
        [] \<Rightarrow> None
      | c # r \<Rightarrow>
          (if c = CHR ''n'' then (if take 3 r = ''ull'' then Some (JNull, drop 3 r) else None)
           else if c = CHR ''t'' then (if take 3 r = ''rue'' then Some (JBool True, drop 3 r) else None)
           else if c = CHR ''f'' then (if take 4 r = ''alse'' then Some (JBool False, drop 4 r) else None)
           else if c = dquote then map_option (\<lambda>(s, rest). (JStr s, rest)) (parse_string_body r)
           else if c = CHR ''['' then
             (case skip_ws r of
                [] \<Rightarrow> None
              | d # r1 \<Rightarrow> if d = CHR '']'' then Some (JArr [], r1) else parse_elements n [] r)
           else if c = CHR ''{'' then
             (case skip_ws r of
                [] \<Rightarrow> None
              | d # r1 \<Rightarrow> if d = CHR ''}'' then Some (JObj [], r1) else parse_members n [] r)
           else None))"
| "parse_elements 0 acc cs = None"
| "parse_elements (Suc n) acc cs =
     (case parse_value n cs of
        None \<Rightarrow> None
      | Some (v, r) \<Rightarrow>
          (case skip_ws r of
             [] \<Rightarrow> None
           | d # r1 \<Rightarrow>
               if d = CHR '','' then parse_elements n (acc @ [v]) r1
               else if d = CHR '']'' then Some (JArr (acc @ [v]), r1)
               else None))"
| "parse_members 0 acc cs = None"
| "parse_members (Suc n) acc cs =
     (case skip_ws cs of
        [] \<Rightarrow> None
      | q # r \<Rightarrow>
          if q \<noteq> dquote then None
          else
            (case parse_string_body r of
               None \<Rightarrow> None
             | Some (k, r1) \<Rightarrow>
                 (case skip_ws r1 of
                    [] \<Rightarrow> None
                  | c # r2 \<Rightarrow>
                      if c \<noteq> CHR '':'' then None
                      else
                        (case parse_value n r2 of
                           None \<Rightarrow> None
                         | Some (v, r3) \<Rightarrow>
                             (case skip_ws r3 of
                                [] \<Rightarrow> None
                              | d # r4 \<Rightarrow>
                                  if d = CHR '','' then parse_members n (upsert k v acc) r4
                                  else if d = CHR ''}'' then Some (JObj (js_order (upsert k v acc)), r4)
                                  else None)))))"

definition JSON_parse :: "string \<Rightarrow> json option" where
  "JSON_parse s =
     (case parse_value (Suc (length s)) s of
        None \<Rightarrow> None
      | Some (v, rest) \<Rightarrow> if skip_ws rest = [] then Some v else None)"

subsection \<open>String.prototype.split and includes\<close>

text \<open>
  \<open>s.split(sep)\<close> cuts \<open>s\<close> at the occurrences of \<open>sep\<close>, found from the left without
  overlap; an empty separator cuts between all characters.
\<close>

function split_at :: "string \<Rightarrow> string \<Rightarrow> string list" where
  "split_at sep [] = [[]]"
| "split_at sep (c # cs) =
     (if sep \<noteq> [] \<and> prefix sep (c # cs) then [] # split_at sep (drop (length sep) (c # cs))
      else (case split_at sep cs of [] \<Rightarrow> [[c]] | seg # segs \<Rightarrow> (c # seg) # segs))"
  by pat_completeness auto
termination
  by (relation "measure (\<lambda>(sep, s). length s)") (auto simp: neq_Nil_conv)

definition String_split :: "string \<Rightarrow> string \<Rightarrow> string list" where
  "String_split s sep = (if sep = [] then map (\<lambda>c. [c]) s else split_at sep s)"

fun String_includes :: "string \<Rightarrow> string \<Rightarrow> bool" where
  "String_includes [] sep = (sep = [])"
| "String_includes (c # cs) sep = (prefix sep (c # cs) \<or> String_includes cs sep)"

section \<open>What a call reads from outside the logger\<close>

text \<open>
  A call reads two things it does not own: \<open>logContextManager.executionId\<close>, the
  identifier of the current execution context, and \<open>datetime.nowUTC()\<close>, the clock as
  an ISO string. A call is synchronous, so both are fixed while it runs; they are the
  inputs of every call, next to its argument.
\<close>

record Ambient =
  executionId :: string
  nowUTC :: string

section \<open>simple-logging.ts\<close>

datatype LogLevel = Debug | Info | Warn | Error

type_synonym Info = "(string \<times> json) list"

text \<open>
  An exception in flight: the SyntaxError of JSON.parse, or whatever an error's own
  \<open>toJSON\<close> throws (named by a label).
\<close>

datatype thrown = SyntaxError | Thrown string

text \<open>
  An \<open>Error\<close> with the optional \<open>toJSON\<close> of \<open>serializeError\<close>'s parameter type. The
  method takes no argument, so it is given by what a call of it does: it throws, or it
  returns a value. \<open>None\<close> is an error without a \<open>toJSON\<close> function.
\<close>

datatype toJSON_outcome = Throws thrown | Returns json

record JsError =
  name :: string
  message :: string
  toJSON :: "toJSON_outcome option"

text \<open>
  \<open>ErrorInfo\<close> is \<open>Info & { error: Error }\<close>; the record holds the two parts that
  \<open>const { error, ...remainingInfo } = info\<close> takes it apart into.
\<close>

record ErrorInfo =
  error :: JsError
  remainingInfo :: Info

record LoggerSetup =
  prettyLog :: "bool option"
  level :: "LogLevel option"
  isEnabled :: "bool option"
  logAttachments :: "(Ambient \<Rightarrow> (string \<times> string) list) option"

text \<open>
  The pino logger that \<open>SimpleLogger.setup\<close> builds, by the options that decide what is written: the
  threshold, the enabled flag and the mixin. (\<open>transport\<close>, \<open>formatters\<close>, \<open>base\<close> and
  \<open>timestamp\<close> only change how a line is rendered.) \<open>logAttachments\<close> takes no argument
  and may read any state of the program; the model lets it read the ambient values.
\<close>

record Logger =
  threshold :: LogLevel
  enabled :: bool
  mixin :: "Ambient \<Rightarrow> (string \<times> string) list"

definition SimpleLogger_setup :: "LoggerSetup \<Rightarrow> Logger" where
  "SimpleLogger_setup params =
     \<lparr> threshold = (case level params of None \<Rightarrow> Info | Some l \<Rightarrow> l),
       enabled = (case isEnabled params of None \<Rightarrow> True | Some b \<Rightarrow> b),
       mixin = (case logAttachments params of None \<Rightarrow> (\<lambda>_. []) | Some f \<Rightarrow> f) \<rparr>"

text \<open>
  Modelled from the spec: the Level Gate of section 4.1, which is pino's own gate (pino is
  an external library). Levels are ordered debug < info < warn < error; a record
  proceeds to the sink iff the logger is enabled and the record's level is not below the
  threshold.
\<close>

fun level_rank :: "LogLevel \<Rightarrow> nat" where
  "level_rank Debug = 20"
| "level_rank Info = 30"
| "level_rank Warn = 40"
| "level_rank Error = 50"

definition shouldEmit :: "LogLevel \<Rightarrow> LogLevel \<Rightarrow> bool \<Rightarrow> bool" where
  "shouldEmit recordLevel configuredThreshold isEnabled' \<longleftrightarrow>
     isEnabled' \<and> level_rank configuredThreshold \<le> level_rank recordLevel"

text \<open>
  What the sink observes of one call \<open>this.logger.<level>(obj)\<close>: nothing when the gate
  is closed, else one record with the level, the attachments the mixin produces at that
  moment, and the logged object.
\<close>

record SinkRecord =
  sink_level :: LogLevel
  attachments :: "(string \<times> string) list"
  logged :: json

type_synonym LoggerCall = "LogLevel \<times> json"

definition pino_write :: "Logger \<Rightarrow> Ambient \<Rightarrow> LoggerCall \<Rightarrow> SinkRecord list" where
  "pino_write lg amb c =
     (if shouldEmit (fst c) (threshold lg) (enabled lg)
      then [\<lparr> sink_level = fst c, attachments = mixin lg amb, logged = snd c \<rparr>]
      else [])"

definition sink_of :: "Logger \<Rightarrow> Ambient \<Rightarrow> LoggerCall list \<Rightarrow> SinkRecord list" where
  "sink_of lg amb cs = concat (map (pino_write lg amb) cs)"

text \<open>
  The result of a public method: the logger afterwards, the calls it made on
  \<open>this.logger\<close> in order, and the exception it raised to its caller, if any. What was
  written before a raise stays written.
\<close>

record 'a Result =
  state :: 'a
  calls :: "LoggerCall list"
  raised :: "thrown option"

record SimpleLogger =
  logger :: Logger

definition SimpleLogger_new :: "LoggerSetup \<Rightarrow> SimpleLogger" where
  "SimpleLogger_new params = \<lparr> logger = SimpleLogger_setup params \<rparr>"

definition serializeError :: "JsError \<Rightarrow> thrown + (string \<times> json) list" where
  "serializeError e =
     (let serializedError = [(''type'', JStr (name e)), (''message'', JStr (message e))]
      in case toJSON e of
           None \<Rightarrow> Inr serializedError
         | Some (Throws x) \<Rightarrow> Inl x
         | Some (Returns v) \<Rightarrow> Inr (spread serializedError (own_properties v)))"

definition formatLog :: "Ambient \<Rightarrow> Info \<Rightarrow> json" where
  "formatLog amb info = JObj [(''time'', JStr (nowUTC amb)), (''event'', JObj info)]"

definition formatErrorLog :: "Ambient \<Rightarrow> ErrorInfo \<Rightarrow> thrown + json" where
  "formatErrorLog amb info =
     (case serializeError (error info) of
        Inl x \<Rightarrow> Inl x
      | Inr se \<Rightarrow>
          Inr (JObj [(''time'', JStr (nowUTC amb)),
                     (''event'', JObj (upsert ''error'' (JObj se) (remainingInfo info)))]))"

definition SimpleLogger_debug :: "'a SimpleLogger_scheme \<Rightarrow> Ambient \<Rightarrow> Info \<Rightarrow> 'a SimpleLogger_scheme Result" where
  "SimpleLogger_debug L amb info = \<lparr> state = L, calls = [(Debug, formatLog amb info)], raised = None \<rparr>"

definition SimpleLogger_info :: "'a SimpleLogger_scheme \<Rightarrow> Ambient \<Rightarrow> Info \<Rightarrow> 'a SimpleLogger_scheme Result" where
  "SimpleLogger_info L amb info = \<lparr> state = L, calls = [(Info, formatLog amb info)], raised = None \<rparr>"

definition SimpleLogger_warn :: "'a SimpleLogger_scheme \<Rightarrow> Ambient \<Rightarrow> Info \<Rightarrow> 'a SimpleLogger_scheme Result" where
  "SimpleLogger_warn L amb info = \<lparr> state = L, calls = [(Warn, formatLog amb info)], raised = None \<rparr>"

definition SimpleLogger_error :: "'a SimpleLogger_scheme \<Rightarrow> Ambient \<Rightarrow> ErrorInfo \<Rightarrow> 'a SimpleLogger_scheme Result" where
  "SimpleLogger_error L amb info =
     (case formatErrorLog amb info of
        Inl x \<Rightarrow> \<lparr> state = L, calls = [], raised = Some x \<rparr>
      | Inr r \<Rightarrow> \<lparr> state = L, calls = [(Error, r)], raised = None \<rparr>)"

section \<open>context-logging.ts\<close>

text \<open>
  Modelled from the spec: the buffer of section 4.4, which the code keeps in a
  \<open>PassThrough\<close> of Node's stream library (an external library). A \<open>PassThrough\<close> is a
  \<open>Transform\<close> that passes every chunk on unchanged. It has a readable side, whose
  content \<open>read()\<close> returns, and a writable side. A write passes its chunk to the
  readable side at once and completes, unless the readable side then holds the
  high-water mark or more: then the write stays in progress, and every later write is
  queued on the writable side. A read first lets a write in progress complete, upon
  which the queued chunks are written in turn until one of them stays in progress
  again, and then returns all the readable side holds. The stream is never ended or
  destroyed by the code, and it has no listeners. The mark is that of
  \<open>new PassThrough()\<close>, the default of the Node runtime, a positive number.
\<close>

record PassThrough =
  highWaterMark :: nat
  readableData :: string
  writing :: bool
  buffered :: "string list"

definition PassThrough_new :: "nat \<Rightarrow> PassThrough" where
  "PassThrough_new hwm = \<lparr> highWaterMark = hwm, readableData = [], writing = False, buffered = [] \<rparr>"

text \<open>
  \<open>Transform._write\<close>: the chunk is pushed to the readable side, and the callback of the
  write is called unless something was pushed and the readable side has reached the mark.
\<close>

definition transform_write :: "PassThrough \<Rightarrow> string \<Rightarrow> PassThrough" where
  "transform_write p chunk =
     p\<lparr> readableData := readableData p @ chunk,
        writing := \<not> (chunk = [] \<or> length (readableData p @ chunk) < highWaterMark p) \<rparr>"

definition PassThrough_write :: "PassThrough \<Rightarrow> string \<Rightarrow> PassThrough" where
  "PassThrough_write p chunk =
     (if writing p then p\<lparr> buffered := buffered p @ [chunk] \<rparr> else transform_write p chunk)"

text \<open>
  When the callback of a write is called, the queued chunks are written in turn, as long
  as no write stays in progress.
\<close>

fun clearBuffer :: "PassThrough \<Rightarrow> string list \<Rightarrow> PassThrough" where
  "clearBuffer p [] = p\<lparr> buffered := [] \<rparr>"
| "clearBuffer p (chunk # rest) =
     (if writing (transform_write p chunk) then (transform_write p chunk)\<lparr> buffered := rest \<rparr>
      else clearBuffer (transform_write p chunk) rest)"

text \<open>\<open>Transform._read\<close>: a write in progress completes.\<close>

definition Transform_read :: "PassThrough \<Rightarrow> PassThrough" where
  "Transform_read p = (if writing p then clearBuffer (p\<lparr> writing := False \<rparr>) (buffered p) else p)"

definition readable :: "PassThrough \<Rightarrow> bool" where
  "readable p = True"

definition readableLength :: "PassThrough \<Rightarrow> nat" where
  "readableLength p = length (readableData p)"

text \<open>
  \<open>read()\<close> calls \<open>_read\<close> and then returns null when the readable side is empty, else
  all of its content, which it removes.
\<close>

definition PassThrough_read :: "PassThrough \<Rightarrow> string option \<times> PassThrough" where
  "PassThrough_read p =
     (let p1 = Transform_read p in
      if readableData p1 = [] then (None, p1)
      else (Some (readableData p1), p1\<lparr> readableData := [] \<rparr>))"

text \<open>
  The logger, with the default high-water mark of the runtime it runs on, which its
  streams take.
\<close>

record ContextLogger = SimpleLogger +
  enableLogStreams :: bool
  logStreams :: "string \<rightharpoonup> PassThrough"
  defaultHighWaterMark :: nat

definition LOG_SEP :: string where
  "LOG_SEP = ''<LOGEND>''"

definition ContextLogger_new :: "LoggerSetup \<Rightarrow> bool \<Rightarrow> nat \<Rightarrow> ContextLogger" where
  "ContextLogger_new params enable hwm =
     \<lparr> logger = SimpleLogger_setup params, enableLogStreams = enable, logStreams = Map.empty,
       defaultHighWaterMark = hwm \<rparr>"

definition createLogStream :: "ContextLogger \<Rightarrow> Ambient \<Rightarrow> ContextLogger" where
  "createLogStream L amb =
     (if logStreams L (executionId amb) = None
      then L\<lparr> logStreams := (logStreams L)(executionId amb \<mapsto> PassThrough_new (defaultHighWaterMark L)) \<rparr>
      else L)"

definition deleteLogStream :: "ContextLogger \<Rightarrow> Ambient \<Rightarrow> ContextLogger" where
  "deleteLogStream L amb = L\<lparr> logStreams := (logStreams L)(executionId amb := None) \<rparr>"

definition hasStreamedLogs :: "ContextLogger \<Rightarrow> Ambient \<Rightarrow> bool" where
  "hasStreamedLogs L amb =
     (case logStreams L (executionId amb) of
        None \<Rightarrow> False
      | Some logStream \<Rightarrow> readable logStream \<and> readableLength logStream \<noteq> 0)"

text \<open>\<open>logStream?.write(chunk)\<close> on the stream of the current context.\<close>

definition write_current :: "ContextLogger \<Rightarrow> Ambient \<Rightarrow> string \<Rightarrow> ContextLogger" where
  "write_current L amb chunk =
     (case logStreams L (executionId amb) of
        None \<Rightarrow> L
      | Some logStream \<Rightarrow>
          L\<lparr> logStreams := (logStreams L)(executionId amb \<mapsto> PassThrough_write logStream chunk) \<rparr>)"

definition flushLogStream :: "ContextLogger \<Rightarrow> Ambient \<Rightarrow> string \<times> ContextLogger" where
  "flushLogStream L amb =
     (case logStreams L (executionId amb) of
        None \<Rightarrow> ([], L)
      | Some logStream \<Rightarrow>
          (case PassThrough_read logStream of
             (None, p) \<Rightarrow> ([], L\<lparr> logStreams := (logStreams L)(executionId amb \<mapsto> p) \<rparr>)
           | (Some data, p) \<Rightarrow> (data, L\<lparr> logStreams := (logStreams L)(executionId amb \<mapsto> p) \<rparr>)))"

definition ContextLogger_debug :: "ContextLogger \<Rightarrow> Ambient \<Rightarrow> Info \<Rightarrow> ContextLogger Result" where
  "ContextLogger_debug L amb info =
     (if \<not> enableLogStreams L then SimpleLogger_debug L amb info
      else
        let L1 = createLogStream L amb;
            L2 = (if hasStreamedLogs L1 amb then write_current L1 amb LOG_SEP else L1);
            L3 = write_current L2 amb (JSON_stringify (formatLog amb info))
        in \<lparr> state = L3, calls = [], raised = None \<rparr>)"

text \<open>
  The \<open>forEach\<close> of \<open>error\<close>: each segment is parsed and logged at info level, in order;
  the first segment that JSON.parse rejects ends the loop with its SyntaxError.
\<close>

fun replay :: "string list \<Rightarrow> LoggerCall list \<times> thrown option" where
  "replay [] = ([], None)"
| "replay (streamedInfo # rest) =
     (case JSON_parse streamedInfo of
        None \<Rightarrow> ([], Some SyntaxError)
      | Some v \<Rightarrow> (case replay rest of (cs, x) \<Rightarrow> ((Info, v) # cs, x)))"

definition ContextLogger_error :: "ContextLogger \<Rightarrow> Ambient \<Rightarrow> ErrorInfo \<Rightarrow> ContextLogger Result" where
  "ContextLogger_error L amb info =
     (let r = SimpleLogger_error L amb info in
      if raised r \<noteq> None then r
      else if enableLogStreams L \<and> hasStreamedLogs L amb then
        (case flushLogStream L amb of
           (data, L1) \<Rightarrow>
             (case replay (String_split data LOG_SEP) of
                (cs, Some x) \<Rightarrow> \<lparr> state = L1, calls = calls r @ cs, raised = Some x \<rparr>
              | (cs, None) \<Rightarrow>
                  \<lparr> state = deleteLogStream L1 amb, calls = calls r @ cs, raised = None \<rparr>))
      else r)"

section \<open>Sequences of calls\<close>

datatype Call =
    DebugCall Info
  | InfoCall Info
  | WarnCall Info
  | ErrorCall ErrorInfo
  | CreateLogStreamCall
  | DeleteLogStreamCall

fun perform :: "ContextLogger \<Rightarrow> Ambient \<Rightarrow> Call \<Rightarrow> ContextLogger Result" where
  "perform L amb (DebugCall info) = ContextLogger_debug L amb info"
| "perform L amb (InfoCall info) = SimpleLogger_info L amb info"
| "perform L amb (WarnCall info) = SimpleLogger_warn L amb info"
| "perform L amb (ErrorCall info) = ContextLogger_error L amb info"
| "perform L amb CreateLogStreamCall = \<lparr> state = createLogStream L amb, calls = [], raised = None \<rparr>"
| "perform L amb DeleteLogStreamCall = \<lparr> state = deleteLogStream L amb, calls = [], raised = None \<rparr>"

text \<open>
  A program is a list of calls, each with the ambient values it runs under. A caller
  that catches an exception goes on with the logger as the failed call left it.
\<close>

fun final_state :: "ContextLogger \<Rightarrow> (Ambient \<times> Call) list \<Rightarrow> ContextLogger" where
  "final_state L [] = L"
| "final_state L ((amb, c) # rest) = final_state (state (perform L amb c)) rest"

fun sink :: "ContextLogger \<Rightarrow> (Ambient \<times> Call) list \<Rightarrow> SinkRecord list" where
  "sink L [] = []"
| "sink L ((amb, c) # rest) =
     sink_of (logger L) amb (calls (perform L amb c)) @ sink (state (perform L amb c)) rest"

text \<open>What the calls made under one execution identifier did, call by call.\<close>

fun observed :: "string \<Rightarrow> ContextLogger \<Rightarrow> (Ambient \<times> Call) list \<Rightarrow> (LoggerCall list \<times> thrown option) list" where
  "observed c L [] = []"
| "observed c L ((amb, k) # rest) =
     (if executionId amb = c
      then [(calls (perform L amb k), raised (perform L amb k))]
      else []) @ observed c (state (perform L amb k)) rest"

section \<open>Notions the properties are stated with\<close>

text \<open>The text that one buffered debug call writes to the stream: its serialized record.\<close>

definition record_text :: "Ambient \<times> Info \<Rightarrow> string" where
  "record_text d = JSON_stringify (formatLog (fst d) (snd d))"

text \<open>
  All the text a stream holds, in the order it was written: the readable side, then the
  chunks queued on the writable side.
\<close>

definition held :: "PassThrough \<Rightarrow> string" where
  "held p = readableData p @ concat (buffered p)"

text \<open>A stream with no write in progress, whose readable side holds the given text.\<close>

definition idle_stream :: "nat \<Rightarrow> string \<Rightarrow> PassThrough" where
  "idle_stream hwm t = \<lparr> highWaterMark = hwm, readableData = t, writing = False, buffered = [] \<rparr>"

text \<open>A run of debug calls, each with the ambient values it is made under.\<close>

definition debug_calls :: "(Ambient \<times> Info) list \<Rightarrow> (Ambient \<times> Call) list" where
  "debug_calls ds = map (\<lambda>d. (fst d, DebugCall (snd d))) ds"

text \<open>The calls of a program made under one execution identifier.\<close>

definition calls_under :: "string \<Rightarrow> (Ambient \<times> Call) list \<Rightarrow> (Ambient \<times> Call) list" where
  "calls_under c tr = filter (\<lambda>s. executionId (fst s) = c) tr"

text \<open>
  Two loggers that a call under identifier \<open>c\<close> cannot tell apart: the same pino logger,
  the same buffering mode, the same default mark and the same stream for \<open>c\<close>.
\<close>

definition agree_on :: "string \<Rightarrow> ContextLogger \<Rightarrow> ContextLogger \<Rightarrow> bool" where
  "agree_on c L1 L2 \<longleftrightarrow>
     logger L1 = logger L2 \<and> enableLogStreams L1 = enableLogStreams L2
     \<and> defaultHighWaterMark L1 = defaultHighWaterMark L2 \<and> logStreams L1 c = logStreams L2 c"

text \<open>For the proof that JSON.parse inverts JSON.stringify.\<close>

definition value_start :: "char \<Rightarrow> bool" where
  "value_start c \<longleftrightarrow> c = CHR ''n'' \<or> c = CHR ''t'' \<or> c = CHR ''f'' \<or> c = dquote \<or> c = CHR ''['' \<or> c = CHR ''{''"

definition member_text :: "string \<times> json \<Rightarrow> string" where
  "member_text kv = quote (fst kv) @ '':'' @ JSON_stringify (snd kv)"

section \<open>A concrete scenario\<close>

text \<open>
  Two execution contexts \<open>A\<close> and \<open>B\<close>, a logger whose attachments are the execution
  identifier and the clock and whose streams have a mark of 64 KiB, the same logger on a
  runtime whose mark is 50 bytes, a plain error, an error whose \<open>toJSON\<close> throws, the error of
  the README whose \<open>toJSON\<close> adds a field, and a payload that holds the text of
  \<open>LOG_SEP\<close>.
\<close>

definition at_A :: Ambient where
  "at_A = \<lparr> executionId = ''A'', nowUTC = ''2024-01-01T00:00:00.000Z'' \<rparr>"

definition at_A_later :: Ambient where
  "at_A_later = \<lparr> executionId = ''A'', nowUTC = ''2024-01-01T00:00:05.000Z'' \<rparr>"

definition at_B :: Ambient where
  "at_B = \<lparr> executionId = ''B'', nowUTC = ''2024-01-01T00:00:01.000Z'' \<rparr>"

definition plain_error :: JsError where
  "plain_error = \<lparr> name = ''Error'', message = ''Oops'', toJSON = None \<rparr>"

definition throwing_error :: JsError where
  "throwing_error = \<lparr> name = ''Error'', message = ''Oops'', toJSON = Some (Throws (Thrown ''boom'')) \<rparr>"

definition custom_error :: JsError where
  "custom_error =
     \<lparr> name = ''Error'', message = ''Oops'',
       toJSON = Some (Returns (JObj [(''prop'', JStr ''Custom Exception message'')])) \<rparr>"

definition scenario_setup :: "LogLevel \<Rightarrow> bool \<Rightarrow> LoggerSetup" where
  "scenario_setup l e =
     \<lparr> prettyLog = None, level = Some l, isEnabled = Some e,
       logAttachments = Some (\<lambda>amb. [(''executionId'', executionId amb), (''clock'', nowUTC amb)]) \<rparr>"

definition scenario_logger :: "LogLevel \<Rightarrow> ContextLogger" where
  "scenario_logger l = ContextLogger_new (scenario_setup l True) True 65536"

definition small_mark_logger :: ContextLogger where
  "small_mark_logger = ContextLogger_new (scenario_setup Debug True) True 50"

definition failure :: ErrorInfo where
  "failure = \<lparr> error = plain_error, remainingInfo = [(''name'', JStr ''e'')] \<rparr>"

definition failure_record :: json where
  "failure_record =
     JObj [(''time'', JStr ''2024-01-01T00:00:05.000Z''),
           (''event'', JObj [(''name'', JStr ''e''),
                             (''error'', JObj [(''type'', JStr ''Error''), (''message'', JStr ''Oops'')])])]"

definition collision :: Info where
  "collision = [(''name'', JStr ''a<LOGEND>b'')]"

section \<open>Lemmas\<close>

subsection \<open>JSON.parse inverts JSON.stringify\<close>

lemma skip_ws_Cons: "\<not> is_ws c \<Longrightarrow> skip_ws (c # cs) = c # cs"
  by (simp add: skip_ws_def)

lemma hex_val_hex_digit: "d < 16 \<Longrightarrow> hex_val (hex_digit d) = Some d"
  by (auto simp: hex_val_def hex_digit_def Let_def)

lemma hex_val_zero: "hex_val CHR ''0'' = Some 0"
  by (simp add: hex_val_def)

lemma unicode_escape_control:
  assumes "(of_char c :: nat) < 32"
  shows "unicode_escape CHR ''0'' CHR ''0'' (hex_digit (of_char c div 16)) (hex_digit (of_char c mod 16)) = Some c"
proof -
  have "(of_char c :: nat) div 16 < 16" using assms by simp
  moreover have "(of_char c :: nat) mod 16 < 16" by simp
  ultimately show ?thesis
    by (simp add: unicode_escape_def hex_val_hex_digit hex_val_zero)
qed

lemma parse_string_body_escape:
  "parse_string_body (escape_char c @ cs) = cons_fst c (parse_string_body cs)"
  by (simp add: escape_char_def simple_escape_def dquote_def backslash_def unicode_escape_control)

lemma parse_string_body_escaped:
  "parse_string_body (concat (map escape_char s) @ dquote # rest) = Some (s, rest)"
  by (induction s) (simp_all add: parse_string_body_escape cons_fst_def)

lemma parse_string_body_quote:
  "parse_string_body (tl (quote s) @ rest) = Some (s, rest)"
  by (simp add: quote_def parse_string_body_escaped)

lemma JSON_stringify_start:
  "\<exists>c cs. JSON_stringify v = c # cs \<and> value_start c"
  by (cases v) (auto simp: value_start_def quote_def)

lemma JSON_stringify_length: "0 < length (JSON_stringify v)"
  using JSON_stringify_start[of v] by auto

lemma value_start_not_ws: "value_start c \<Longrightarrow> \<not> is_ws c"
  by (auto simp: value_start_def is_ws_def dquote_def)

lemma intercalate_Cons:
  "intercalate sep (x # xs) = x @ (if xs = [] then [] else sep @ intercalate sep xs)"
  by (cases xs) auto

lemma parse_elements_stringify:
  assumes "\<And>v n rest. v \<in> set vs \<Longrightarrow> length (JSON_stringify v) \<le> n \<Longrightarrow>
             parse_value n (JSON_stringify v @ rest) = Some (v, rest)"
    and "vs \<noteq> []"
    and "length (intercalate '','' (map JSON_stringify vs)) < n"
  shows "parse_elements n acc (intercalate '','' (map JSON_stringify vs) @ CHR '']'' # rest)
           = Some (JArr (acc @ vs), rest)"
  using assms
proof (induction vs arbitrary: n acc)
  case Nil
  then show ?case by simp
next
  case (Cons v vs)
  obtain m where n: "n = Suc m" using Cons.prems(3) by (cases n) auto
  have len: "length (JSON_stringify v) \<le> m"
    using Cons.prems(3) by (simp add: n intercalate_Cons split: if_splits)
  show ?case
  proof (cases "vs = []")
    case True
    have "parse_value m (JSON_stringify v @ CHR '']'' # rest) = Some (v, CHR '']'' # rest)"
      using Cons.prems(1)[of v m] len by simp
    then show ?thesis
      by (simp add: n True skip_ws_Cons is_ws_def)
  next
    case False
    have pv: "parse_value m (JSON_stringify v @ CHR '','' # intercalate '','' (map JSON_stringify vs) @ CHR '']'' # rest)
            = Some (v, CHR '','' # intercalate '','' (map JSON_stringify vs) @ CHR '']'' # rest)"
      using Cons.prems(1)[of v m] len by simp
    have "length (intercalate '','' (map JSON_stringify vs)) < m"
      using Cons.prems(3) JSON_stringify_length[of v] by (simp add: n intercalate_Cons False)
    then have "parse_elements m (acc @ [v]) (intercalate '','' (map JSON_stringify vs) @ CHR '']'' # rest)
            = Some (JArr ((acc @ [v]) @ vs), rest)"
      using Cons.prems(1) False by (intro Cons.IH) auto
    then show ?thesis
      using pv by (simp add: n intercalate_Cons False skip_ws_Cons is_ws_def)
  qed
qed

lemma upsert_fresh: "k \<notin> fst ` set ps \<Longrightarrow> upsert k v ps = ps @ [(k, v)]"
  by (induction ps) auto

lemma skip_ws_dquote: "skip_ws (dquote # cs) = dquote # cs"
  by (simp add: skip_ws_def is_ws_def dquote_def)

lemma skip_ws_punct:
  "skip_ws (CHR '':'' # cs) = CHR '':'' # cs"
  "skip_ws (CHR '','' # cs) = CHR '','' # cs"
  "skip_ws (CHR ''}'' # cs) = CHR ''}'' # cs"
  "skip_ws (CHR '']'' # cs) = CHR '']'' # cs"
  by (simp_all add: skip_ws_def is_ws_def)

lemma member_text_eq: "(\<lambda>(k, v). quote k @ '':'' @ JSON_stringify v) = member_text"
  by (auto simp: member_text_def fun_eq_iff)

lemma parse_members_step:
  assumes "length (JSON_stringify v) \<le> m \<Longrightarrow> parse_value m (JSON_stringify v @ d # R) = Some (v, d # R)"
    and "length (member_text (k, v)) \<le> m"
    and "d = CHR '','' \<or> d = CHR ''}''"
  shows "parse_members (Suc m) acc (member_text (k, v) @ d # R) =
           (if d = CHR '','' then parse_members m (upsert k v acc) R
            else Some (JObj (js_order (upsert k v acc)), R))"
proof -
  have len: "length (JSON_stringify v) \<le> m"
    using assms(2) by (simp add: member_text_def)
  have pv: "parse_value m (JSON_stringify v @ d # R) = Some (v, d # R)"
    using assms(1) len by simp
  have ws: "\<not> is_ws d" using assms(3) by (auto simp: is_ws_def)
  have shape: "member_text (k, v) @ d # R
       = dquote # concat (map escape_char k) @ dquote # CHR '':'' # JSON_stringify v @ d # R"
    by (simp add: member_text_def quote_def)
  show ?thesis
    unfolding shape using assms(3) pv
    by (auto simp: skip_ws_dquote skip_ws_punct parse_string_body_escaped)
qed

lemma member_text_length: "length (JSON_stringify (snd kv)) < length (member_text kv)"
  by (simp add: member_text_def)

lemma parse_members_stringify:
  assumes "\<And>k v n rest. (k, v) \<in> set kvs \<Longrightarrow> length (JSON_stringify v) \<le> n \<Longrightarrow>
             parse_value n (JSON_stringify v @ rest) = Some (v, rest)"
    and "kvs \<noteq> []"
    and "length (intercalate '','' (map member_text kvs)) < n"
    and "distinct (map fst (acc @ kvs))"
  shows "parse_members n acc (intercalate '','' (map member_text kvs) @ CHR ''}'' # rest)
           = Some (JObj (js_order (acc @ kvs)), rest)"
  using assms
proof (induction kvs arbitrary: n acc)
  case Nil
  then show ?case by simp
next
  case (Cons kv kvs)
  obtain k v where kv: "kv = (k, v)" by (cases kv)
  obtain m where n: "n = Suc m" using Cons.prems(3) by (cases n) auto
  have len: "length (member_text (k, v)) \<le> m"
    using Cons.prems(3) by (simp add: n kv intercalate_Cons split: if_splits)
  have fresh: "upsert k v acc = acc @ [(k, v)]"
    using Cons.prems(4) by (intro upsert_fresh) (auto simp: kv)
  have pv: "\<And>d R. length (JSON_stringify v) \<le> m \<Longrightarrow>
              parse_value m (JSON_stringify v @ d # R) = Some (v, d # R)"
    using Cons.prems(1)[of k v m] by (simp add: kv)
  show ?case
  proof (cases "kvs = []")
    case True
    show ?thesis
      using parse_members_step[of v m "CHR ''}''" rest k acc, OF pv len]
      by (simp add: n kv True fresh)
  next
    case False
    have "length (intercalate '','' (map member_text kvs)) < m"
      using Cons.prems(3) member_text_length[of kv] by (simp add: n intercalate_Cons False)
    moreover have "distinct (map fst ((acc @ [(k, v)]) @ kvs))"
      using Cons.prems(4) by (simp add: kv)
    ultimately have "parse_members m (acc @ [(k, v)])
             (intercalate '','' (map member_text kvs) @ CHR ''}'' # rest)
           = Some (JObj (js_order ((acc @ [(k, v)]) @ kvs)), rest)"
      using Cons.prems(1) False by (intro Cons.IH) auto
    then show ?thesis
      using parse_members_step[of v m "CHR '',''" "intercalate '','' (map member_text kvs) @ CHR ''}'' # rest" k acc, OF pv len]
      by (simp add: n kv intercalate_Cons False fresh)
  qed
qed

lemma dquote_distinct:
  "dquote \<noteq> CHR ''n''" "dquote \<noteq> CHR ''t''" "dquote \<noteq> CHR ''f''"
  "dquote \<noteq> CHR ''[''" "dquote \<noteq> CHR ''{''" "dquote \<noteq> CHR ''}''"
  "CHR ''n'' \<noteq> dquote" "CHR ''t'' \<noteq> dquote" "CHR ''f'' \<noteq> dquote"
  "CHR ''['' \<noteq> dquote" "CHR ''{'' \<noteq> dquote" "CHR ''}'' \<noteq> dquote"
  "dquote \<noteq> CHR '']''" "CHR '']'' \<noteq> dquote"
  by (simp_all add: dquote_def)

lemma skip_ws_value_start: "value_start c \<Longrightarrow> skip_ws (c # cs) = c # cs"
  by (simp add: skip_ws_Cons value_start_not_ws)

lemma skip_ws_stringify: "skip_ws (JSON_stringify v @ rest) = JSON_stringify v @ rest"
  using JSON_stringify_start[of v] by (auto simp: skip_ws_value_start)

lemma skip_ws_open:
  "skip_ws (CHR ''['' # cs) = CHR ''['' # cs"
  "skip_ws (CHR ''{'' # cs) = CHR ''{'' # cs"
  by (simp_all add: skip_ws_def is_ws_def)

lemma parse_value_array:
  "value_start c \<Longrightarrow> parse_value (Suc m) (CHR ''['' # c # cs) = parse_elements m [] (c # cs)"
  by (auto simp: skip_ws_open skip_ws_value_start dquote_distinct value_start_def)

lemma parse_value_object:
  "parse_value (Suc m) (CHR ''{'' # dquote # cs) = parse_members m [] (dquote # cs)"
  by (simp add: skip_ws_open skip_ws_dquote dquote_distinct)

lemma JSON_stringify_JObj:
  "JSON_stringify (JObj kvs) = CHR ''{'' # intercalate '','' (map member_text kvs) @ ''}''"
  unfolding JSON_stringify.simps member_text_eq by simp

lemma parse_value_stringify:
  "wf_json v \<Longrightarrow> length (JSON_stringify v) \<le> n \<Longrightarrow>
     parse_value n (JSON_stringify v @ rest) = Some (v, rest)"
proof (induction v arbitrary: n rest rule: JSON_stringify.induct)
  case 1
  then obtain m where "n = Suc m" by (cases n) auto
  then show ?case by (simp add: skip_ws_def is_ws_def)
next
  case (2 b)
  then obtain m where "n = Suc m" by (cases n) (auto split: if_splits)
  then show ?case by (simp add: skip_ws_def is_ws_def)
next
  case (3 s)
  then obtain m where "n = Suc m" by (cases n) (auto simp: quote_def)
  then show ?case
    by (simp add: quote_def skip_ws_dquote parse_string_body_escaped dquote_distinct)
next
  case (4 vs)
  then obtain m where n: "n = Suc m" by (cases n) auto
  show ?case
  proof (cases "vs = []")
    case True
    then show ?thesis by (simp add: n skip_ws_def is_ws_def dquote_distinct)
  next
    case False
    obtain c cs where start: "intercalate '','' (map JSON_stringify vs) = c # cs" "value_start c"
      using False JSON_stringify_start[of "hd vs"] by (cases vs) (auto simp: intercalate_Cons)
    have notclose: "c \<noteq> CHR '']''" using start(2) by (auto simp: value_start_def dquote_def)
    have "parse_elements m [] (intercalate '','' (map JSON_stringify vs) @ CHR '']'' # rest)
            = Some (JArr ([] @ vs), rest)"
    proof (rule parse_elements_stringify)
      fix v n rest
      assume "v \<in> set vs" "length (JSON_stringify v) \<le> n"
      then show "parse_value n (JSON_stringify v @ rest) = Some (v, rest)"
        using "4.IH"[of v n rest] "4.prems"(1) by (simp add: list_all_iff)
    next
      show "vs \<noteq> []" by (rule False)
    next
      show "length (intercalate '','' (map JSON_stringify vs)) < m"
        using "4.prems"(2) by (simp add: n)
    qed
    then show ?thesis
      using start by (simp add: n parse_value_array del: parse_value.simps)
  qed
next
  case (5 kvs)
  then obtain m where n: "n = Suc m" by (cases n) auto
  show ?case
  proof (cases "kvs = []")
    case True
    then show ?thesis by (simp add: n skip_ws_def is_ws_def dquote_distinct)
  next
    case False
    obtain c cs where start: "intercalate '','' (map member_text kvs) = c # cs" "c = dquote"
      using False by (cases kvs) (auto simp: intercalate_Cons member_text_def quote_def)
    have "parse_members m [] (intercalate '','' (map member_text kvs) @ CHR ''}'' # rest)
            = Some (JObj (js_order ([] @ kvs)), rest)"
    proof (rule parse_members_stringify)
      fix k v n rest
      assume "(k, v) \<in> set kvs" "length (JSON_stringify v) \<le> n"
      then show "parse_value n (JSON_stringify v @ rest) = Some (v, rest)"
        using "5.IH"[of "(k, v)" k v n rest] "5.prems"(1) by (auto simp: list_all_iff)
    next
      show "kvs \<noteq> []" by (rule False)
    next
      show "length (intercalate '','' (map member_text kvs)) < m"
        using "5.prems"(2) by (simp add: n JSON_stringify_JObj del: JSON_stringify.simps)
    next
      show "distinct (map fst ([] @ kvs))" using "5.prems"(1) by simp
    qed
    then show ?thesis
      using start "5.prems"(1)
      by (simp add: n JSON_stringify_JObj parse_value_object del: parse_value.simps JSON_stringify.simps)
  qed
qed

lemma JSON_parse_stringify:
  "wf_json v \<Longrightarrow> JSON_parse (JSON_stringify v) = Some v"
  using parse_value_stringify[of v "Suc (length (JSON_stringify v))" "[]"]
  by (simp add: JSON_parse_def skip_ws_def)

subsection \<open>The stream\<close>

lemma held_transform_write: "held (transform_write p c) = readableData p @ c @ concat (buffered p)"
  by (simp add: held_def transform_write_def)

lemma held_write:
  "\<not> writing p \<longrightarrow> buffered p = [] \<Longrightarrow> held (PassThrough_write p c) = held p @ c"
  by (auto simp: held_def PassThrough_write_def transform_write_def)

lemma queue_write:
  "\<not> writing p \<longrightarrow> buffered p = [] \<Longrightarrow>
     \<not> writing (PassThrough_write p c) \<longrightarrow> buffered (PassThrough_write p c) = []"
  by (auto simp: PassThrough_write_def transform_write_def)

lemma write_idle:
  "length (t @ c) < h \<Longrightarrow> PassThrough_write (idle_stream h t) c = idle_stream h (t @ c)"
  by (simp add: PassThrough_write_def transform_write_def idle_stream_def)

lemma read_idle:
  "t \<noteq> [] \<Longrightarrow> PassThrough_read (idle_stream h t) = (Some t, idle_stream h [])"
  by (simp add: PassThrough_read_def Transform_read_def idle_stream_def)

lemma PassThrough_new_idle: "PassThrough_new h = idle_stream h []"
  by (simp add: PassThrough_new_def idle_stream_def)

lemma readableLength_idle: "readableLength (idle_stream h t) = length t"
  by (simp add: readableLength_def idle_stream_def)

lemma readableData_clearBuffer:
  "\<exists>s. readableData (clearBuffer p cs) = readableData p @ s"
proof (induction cs arbitrary: p)
  case Nil
  then show ?case by simp
next
  case (Cons c cs)
  obtain s where "readableData (clearBuffer (transform_write p c) cs)
      = readableData (transform_write p c) @ s"
    using Cons.IH by blast
  then show ?case by (auto simp: transform_write_def)
qed

lemma readableData_Transform_read:
  "\<exists>s. readableData (Transform_read p) = readableData p @ s"
  using readableData_clearBuffer[of "p\<lparr> writing := False \<rparr>" "buffered p"]
  by (auto simp: Transform_read_def)

lemma read_nonempty:
  assumes "readableData p \<noteq> []"
  shows "PassThrough_read p = (Some (readableData (Transform_read p)), (Transform_read p)\<lparr> readableData := [] \<rparr>)"
  using assms readableData_Transform_read[of p] by (auto simp: PassThrough_read_def Let_def)

lemma read_drains: "readableData (snd (PassThrough_read p)) = []"
  by (simp add: PassThrough_read_def Let_def)

subsection \<open>Splitting on the delimiter\<close>

lemma String_includes_Nil_sep: "sep \<noteq> [] \<Longrightarrow> \<not> String_includes [] sep"
  by simp

lemma prefix_straddle:
  assumes "h \<notin> set t" and "\<not> prefix (h # t) seg"
  shows "\<not> prefix (h # t) (seg @ h # t @ rest) \<or> seg = []"
proof (cases seg)
  case Nil
  then show ?thesis by simp
next
  case (Cons c seg')
  have "\<not> prefix (h # t) (c # seg' @ h # t @ rest)"
  proof
    assume p: "prefix (h # t) (c # seg' @ h # t @ rest)"
    then have ch: "c = h" and pt: "prefix t (seg' @ h # t @ rest)" by auto
    from pt have "prefix t seg' \<or> (\<exists>us. t = seg' @ us \<and> prefix us (h # t @ rest))"
      by (simp add: prefix_append)
    then show False
    proof
      assume "prefix t seg'"
      then show False using assms(2) ch by (simp add: Cons)
    next
      assume "\<exists>us. t = seg' @ us \<and> prefix us (h # t @ rest)"
      then obtain us where us: "t = seg' @ us" "prefix us (h # t @ rest)" by blast
      show False
      proof (cases us)
        case Nil
        then show ?thesis using us(1) assms(2) ch by (simp add: Cons)
      next
        case (Cons u us')
        then have "u = h" using us(2) by simp
        then show ?thesis using us(1) assms(1) Cons by simp
      qed
    qed
  qed
  then show ?thesis by (simp add: Cons)
qed

lemma split_at_segment:
  assumes "h \<notin> set t" and "\<not> String_includes seg (h # t)"
  shows "split_at (h # t) (seg @ (h # t) @ rest) = seg # split_at (h # t) rest"
  using assms(2)
proof (induction seg)
  case Nil
  then show ?case by simp
next
  case (Cons c seg)
  have np: "\<not> prefix (h # t) (c # seg)" and ni: "\<not> String_includes seg (h # t)"
    using Cons.prems by auto
  have "\<not> prefix (h # t) ((c # seg) @ h # t @ rest)"
    using prefix_straddle[OF assms(1) np, of rest] by simp
  then have "\<not> prefix (h # t) (c # seg @ h # t @ rest)" by simp
  then show ?case
    using Cons.IH[OF ni] by simp
qed

lemma split_at_last:
  assumes "sep \<noteq> []" and "\<not> String_includes seg sep"
  shows "split_at sep seg = [seg]"
  using assms(2)
proof (induction seg)
  case Nil
  then show ?case by simp
next
  case (Cons c seg)
  then show ?case by auto
qed

lemma split_at_intercalate:
  assumes "h \<notin> set t" and "segs \<noteq> []" and "\<forall>s \<in> set segs. \<not> String_includes s (h # t)"
  shows "split_at (h # t) (intercalate (h # t) segs) = segs"
  using assms(2,3)
proof (induction segs)
  case Nil
  then show ?case by simp
next
  case (Cons s segs)
  show ?case
  proof (cases "segs = []")
    case True
    then show ?thesis using Cons.prems split_at_last[of "h # t" s] by simp
  next
    case False
    have "split_at (h # t) (s @ (h # t) @ intercalate (h # t) segs)
            = s # split_at (h # t) (intercalate (h # t) segs)"
      using Cons.prems by (intro split_at_segment[OF assms(1)]) simp
    then show ?thesis
      using Cons.IH False Cons.prems by (simp add: intercalate_Cons del: split_at.simps)
  qed
qed

lemma String_split_LOG_SEP:
  assumes "segs \<noteq> []" and "\<forall>s \<in> set segs. \<not> String_includes s LOG_SEP"
  shows "String_split (intercalate LOG_SEP segs) LOG_SEP = segs"
proof -
  have sep: "LOG_SEP = CHR ''<'' # ''LOGEND>''" by (simp add: LOG_SEP_def)
  have "CHR ''<'' \<notin> set ''LOGEND>''" by simp
  then have "split_at LOG_SEP (intercalate LOG_SEP segs) = segs"
    unfolding sep using assms by (intro split_at_intercalate) (simp_all add: sep)
  moreover have "LOG_SEP \<noteq> []" by (simp add: sep)
  ultimately show ?thesis by (simp add: String_split_def)
qed

subsection \<open>Debug calls and runs of calls\<close>

lemma debug_buffered:
  assumes "enableLogStreams L"
  shows "ContextLogger_debug L amb info =
           \<lparr> state = L\<lparr> logStreams := (logStreams L)(executionId amb \<mapsto>
                 PassThrough_write
                   (let p = (case logStreams L (executionId amb) of
                               None \<Rightarrow> PassThrough_new (defaultHighWaterMark L)
                             | Some p \<Rightarrow> p)
                    in if readableLength p \<noteq> 0 then PassThrough_write p LOG_SEP else p)
                   (JSON_stringify (formatLog amb info))) \<rparr>,
             calls = [], raised = None \<rparr>"
  using assms
  by (cases "logStreams L (executionId amb)")
     (simp_all add: ContextLogger_debug_def createLogStream_def hasStreamedLogs_def write_current_def
       readable_def Let_def)

lemma final_state_append:
  "final_state L (xs @ ys) = final_state (final_state L xs) ys"
  by (induction xs arbitrary: L) auto

lemma sink_append:
  "sink L (xs @ ys) = sink L xs @ sink (final_state L xs) ys"
  by (induction xs arbitrary: L) auto

lemma flushLogStream_static:
  "logger (snd (flushLogStream L amb)) = logger L"
  "enableLogStreams (snd (flushLogStream L amb)) = enableLogStreams L"
  "defaultHighWaterMark (snd (flushLogStream L amb)) = defaultHighWaterMark L"
  by (auto simp: flushLogStream_def split: option.splits prod.splits)

lemma ContextLogger_error_static:
  "logger (state (ContextLogger_error L amb info)) = logger L"
  "enableLogStreams (state (ContextLogger_error L amb info)) = enableLogStreams L"
  "defaultHighWaterMark (state (ContextLogger_error L amb info)) = defaultHighWaterMark L"
  using flushLogStream_static[of L amb]
  by (auto simp: ContextLogger_error_def SimpleLogger_error_def deleteLogStream_def Let_def
      split: sum.splits prod.splits option.splits)

lemma ContextLogger_debug_static:
  "logger (state (ContextLogger_debug L amb info)) = logger L"
  "enableLogStreams (state (ContextLogger_debug L amb info)) = enableLogStreams L"
  "defaultHighWaterMark (state (ContextLogger_debug L amb info)) = defaultHighWaterMark L"
  by (auto simp: ContextLogger_debug_def SimpleLogger_debug_def createLogStream_def
      write_current_def Let_def split: option.splits)

lemma perform_static:
  "logger (state (perform L amb c)) = logger L"
  "enableLogStreams (state (perform L amb c)) = enableLogStreams L"
  "defaultHighWaterMark (state (perform L amb c)) = defaultHighWaterMark L"
  by (cases c; simp add: ContextLogger_error_static ContextLogger_debug_static
      SimpleLogger_info_def SimpleLogger_warn_def createLogStream_def deleteLogStream_def)+

lemma final_state_static:
  "logger (final_state L tr) = logger L"
  "enableLogStreams (final_state L tr) = enableLogStreams L"
  "defaultHighWaterMark (final_state L tr) = defaultHighWaterMark L"
  by (induction tr arbitrary: L) (auto simp: perform_static)

lemma sink_of_Nil: "sink_of lg amb [] = []"
  by (simp add: sink_of_def)

lemma sink_debug_calls:
  assumes "enableLogStreams L"
  shows "sink L (debug_calls ds) = []"
  using assms
proof (induction ds arbitrary: L)
  case Nil
  then show ?case by (simp add: debug_calls_def)
next
  case (Cons d ds)
  have "enableLogStreams (state (ContextLogger_debug L (fst d) (snd d)))"
    using Cons.prems by (simp add: ContextLogger_debug_static)
  then have "sink (state (ContextLogger_debug L (fst d) (snd d))) (debug_calls ds) = []"
    by (rule Cons.IH)
  then show ?case
    using Cons.prems by (simp add: debug_calls_def debug_buffered sink_of_Nil)
qed

lemma record_text_nonempty: "record_text d \<noteq> []"
  by (simp add: record_text_def formatLog_def)

lemma intercalate_snoc:
  "xs \<noteq> [] \<Longrightarrow> intercalate sep (xs @ [x]) = intercalate sep xs @ sep @ x"
  by (induction xs) (auto simp: intercalate_Cons)

lemma intercalate_nonempty:
  "xs \<noteq> [] \<Longrightarrow> \<forall>x \<in> set xs. x \<noteq> [] \<Longrightarrow> intercalate sep xs \<noteq> []"
  by (cases xs) (auto simp: intercalate_Cons)

lemma length_intercalate_append:
  "length (intercalate sep xs) \<le> length (intercalate sep (xs @ ys))"
  by (induction xs) (auto simp: intercalate_Cons)

lemma debug_onto_idle:
  assumes "enableLogStreams L"
    and "logStreams L (executionId (fst d)) = Some (idle_stream h (intercalate LOG_SEP (map record_text pre)))"
    and "pre \<noteq> []"
    and "length (intercalate LOG_SEP (map record_text (pre @ [d]))) < h"
  shows "logStreams (state (ContextLogger_debug L (fst d) (snd d))) (executionId (fst d))
           = Some (idle_stream h (intercalate LOG_SEP (map record_text (pre @ [d]))))"
proof -
  let ?t = "intercalate LOG_SEP (map record_text pre)"
  have ne: "?t \<noteq> []"
    using assms(3) by (intro intercalate_nonempty) (auto simp: record_text_nonempty)
  have whole: "intercalate LOG_SEP (map record_text (pre @ [d])) = ?t @ LOG_SEP @ record_text d"
    using assms(3) by (simp add: intercalate_snoc)
  have len: "length (?t @ LOG_SEP @ record_text d) < h" using assms(4) unfolding whole .
  have l1: "length (?t @ LOG_SEP) < h" using len by simp
  have l2: "length ((?t @ LOG_SEP) @ record_text d) < h" using len by simp
  have "logStreams (state (ContextLogger_debug L (fst d) (snd d))) (executionId (fst d))
           = Some (idle_stream h (?t @ LOG_SEP @ record_text d))"
    using assms(1,2) ne write_idle[OF l1] write_idle[OF l2]
    by (simp add: debug_buffered readableLength_idle record_text_def)
  then show ?thesis unfolding whole .
qed

lemma debug_onto_fresh:
  assumes "enableLogStreams L"
    and "logStreams L (executionId (fst d)) = None"
    and "length (record_text d) < defaultHighWaterMark L"
  shows "logStreams (state (ContextLogger_debug L (fst d) (snd d))) (executionId (fst d))
           = Some (idle_stream (defaultHighWaterMark L) (record_text d))"
  using assms write_idle[of "[]" "record_text d" "defaultHighWaterMark L"]
  by (simp add: debug_buffered PassThrough_new_idle readableLength_idle record_text_def)

lemma debugs_onto_idle:
  assumes "enableLogStreams L"
    and "logStreams L c = Some (idle_stream h (intercalate LOG_SEP (map record_text pre)))"
    and "pre \<noteq> []"
    and "\<forall>d \<in> set ds. executionId (fst d) = c"
    and "length (intercalate LOG_SEP (map record_text (pre @ ds))) < h"
  shows "logStreams (final_state L (debug_calls ds)) c
           = Some (idle_stream h (intercalate LOG_SEP (map record_text (pre @ ds))))"
  using assms
proof (induction ds arbitrary: L pre)
  case Nil
  then show ?case by (simp add: debug_calls_def)
next
  case (Cons d ds)
  let ?L' = "state (ContextLogger_debug L (fst d) (snd d))"
  have idc: "executionId (fst d) = c" using Cons.prems(4) by simp
  have "length (intercalate LOG_SEP (map record_text (pre @ [d])))
          \<le> length (intercalate LOG_SEP (map record_text ((pre @ [d]) @ ds)))"
    unfolding map_append by (rule length_intercalate_append)
  then have fits: "length (intercalate LOG_SEP (map record_text (pre @ [d]))) < h"
    using Cons.prems(5) by simp
  have buf: "logStreams ?L' c = Some (idle_stream h (intercalate LOG_SEP (map record_text (pre @ [d]))))"
    using debug_onto_idle[of L d h pre] Cons.prems(1,2,3) fits idc by simp
  have "logStreams (final_state ?L' (debug_calls ds)) c
          = Some (idle_stream h (intercalate LOG_SEP (map record_text ((pre @ [d]) @ ds))))"
    using Cons.prems(1,4,5) buf by (intro Cons.IH) (simp_all add: ContextLogger_debug_static)
  then show ?case by (simp add: debug_calls_def)
qed

lemma debugs_from_empty:
  assumes "enableLogStreams L"
    and "logStreams L c = None"
    and "ds \<noteq> []"
    and "\<forall>d \<in> set ds. executionId (fst d) = c"
    and "length (intercalate LOG_SEP (map record_text ds)) < defaultHighWaterMark L"
  shows "logStreams (final_state L (debug_calls ds)) c
           = Some (idle_stream (defaultHighWaterMark L) (intercalate LOG_SEP (map record_text ds)))"
proof -
  obtain d ds' where ds: "ds = d # ds'" using assms(3) by (cases ds) auto
  let ?L' = "state (ContextLogger_debug L (fst d) (snd d))"
  have idc: "executionId (fst d) = c" using assms(4) by (simp add: ds)
  have "length (intercalate LOG_SEP (map record_text [d]))
          \<le> length (intercalate LOG_SEP (map record_text ([d] @ ds')))"
    unfolding map_append by (rule length_intercalate_append)
  then have "length (record_text d) < defaultHighWaterMark L"
    using assms(5) by (simp add: ds)
  then have buf: "logStreams ?L' c
      = Some (idle_stream (defaultHighWaterMark L) (intercalate LOG_SEP (map record_text [d])))"
    using debug_onto_fresh[of L d] assms(1,2) idc by simp
  have "logStreams (final_state ?L' (debug_calls ds')) c
          = Some (idle_stream (defaultHighWaterMark L) (intercalate LOG_SEP (map record_text ([d] @ ds'))))"
    using assms(1,4,5) buf
    by (intro debugs_onto_idle) (simp_all add: ContextLogger_debug_static ds)
  then show ?thesis by (simp add: ds debug_calls_def)
qed

lemma replay_records:
  assumes "\<forall>d \<in> set ds. wf_json (JObj (snd d))"
  shows "replay (map record_text ds) = (map (\<lambda>d. (Info, formatLog (fst d) (snd d))) ds, None)"
  using assms
proof (induction ds)
  case Nil
  then show ?case by simp
next
  case (Cons d ds)
  have "js_order [(''time'', JStr (nowUTC (fst d))), (''event'', JObj (snd d))]
          = [(''time'', JStr (nowUTC (fst d))), (''event'', JObj (snd d))]"
    by (simp add: js_order_def array_index_def is_digit_def)
  then have "wf_json (formatLog (fst d) (snd d))"
    using Cons.prems by (simp add: formatLog_def)
  then have "JSON_parse (record_text d) = Some (formatLog (fst d) (snd d))"
    unfolding record_text_def by (rule JSON_parse_stringify)
  then show ?case using Cons by simp
qed

lemma replay_levels: "list_all (\<lambda>c. fst c = Info) (fst (replay segs))"
  by (induction segs) (auto split: option.splits prod.splits)

subsection \<open>The error call, case by case\<close>

lemma error_throws:
  assumes "formatErrorLog amb info = Inl x"
  shows "ContextLogger_error L amb info = \<lparr> state = L, calls = [], raised = Some x \<rparr>"
  using assms by (simp add: ContextLogger_error_def SimpleLogger_error_def Let_def)

lemma error_without_pending:
  assumes "formatErrorLog amb info = Inr r"
    and "\<not> (enableLogStreams L \<and> hasStreamedLogs L amb)"
  shows "ContextLogger_error L amb info = \<lparr> state = L, calls = [(Error, r)], raised = None \<rparr>"
  using assms by (auto simp: ContextLogger_error_def SimpleLogger_error_def Let_def)

lemma hasStreamedLogs_iff:
  "hasStreamedLogs L amb \<longleftrightarrow> (\<exists>p. logStreams L (executionId amb) = Some p \<and> readableData p \<noteq> [])"
  by (auto simp: hasStreamedLogs_def readable_def readableLength_def split: option.splits)

lemma error_with_pending:
  assumes "formatErrorLog amb info = Inr r"
    and "enableLogStreams L"
    and "logStreams L (executionId amb) = Some p"
    and "readableData p \<noteq> []"
    and "PassThrough_read p = (Some data, p')"
  shows "ContextLogger_error L amb info =
           (case replay (String_split data LOG_SEP) of
              (cs, Some x) \<Rightarrow>
                \<lparr> state = L\<lparr> logStreams := (logStreams L)(executionId amb \<mapsto> p') \<rparr>,
                  calls = (Error, r) # cs, raised = Some x \<rparr>
            | (cs, None) \<Rightarrow>
                \<lparr> state = L\<lparr> logStreams := (logStreams L)(executionId amb := None) \<rparr>,
                  calls = (Error, r) # cs, raised = None \<rparr>)"
  using assms
  by (simp add: ContextLogger_error_def SimpleLogger_error_def Let_def hasStreamedLogs_def
      readable_def readableLength_def flushLogStream_def deleteLogStream_def
      split: prod.splits option.splits)

lemma pending_read:
  assumes "hasStreamedLogs L amb"
  obtains p data p' where "logStreams L (executionId amb) = Some p" "readableData p \<noteq> []"
    "PassThrough_read p = (Some data, p')"
proof -
  obtain p where p: "logStreams L (executionId amb) = Some p" "readableData p \<noteq> []"
    using assms by (auto simp: hasStreamedLogs_iff)
  show thesis using that[OF p read_nonempty[OF p(2)]] .
qed

lemma pino_write_open:
  "enabled lg \<Longrightarrow> level_rank (threshold lg) \<le> level_rank (fst c) \<Longrightarrow>
     pino_write lg amb c = [\<lparr> sink_level = fst c, attachments = mixin lg amb, logged = snd c \<rparr>]"
  by (simp add: pino_write_def shouldEmit_def)

lemma pino_write_closed:
  "\<not> enabled lg \<or> level_rank (fst c) < level_rank (threshold lg) \<Longrightarrow> pino_write lg amb c = []"
  by (auto simp: pino_write_def shouldEmit_def)

lemma sink_of_Cons: "sink_of lg amb (c # cs) = pino_write lg amb c @ sink_of lg amb cs"
  by (simp add: sink_of_def)

lemma sink_of_all_open:
  assumes "enabled lg" and "\<forall>c \<in> set cs. level_rank (threshold lg) \<le> level_rank (fst c)"
  shows "sink_of lg amb cs =
           map (\<lambda>c. \<lparr> sink_level = fst c, attachments = mixin lg amb, logged = snd c \<rparr>) cs"
  using assms by (induction cs) (simp_all add: sink_of_Nil sink_of_Cons pino_write_open)

lemma sink_of_all_closed:
  assumes "\<forall>c \<in> set cs. level_rank (fst c) < level_rank (threshold lg)"
  shows "sink_of lg amb cs = []"
  using assms by (induction cs) (simp_all add: sink_of_Nil sink_of_Cons pino_write_closed)

lemma level_rank_le_Error: "level_rank l \<le> level_rank Error"
  by (cases l) simp_all

lemma pino_write_Error:
  "enabled lg \<Longrightarrow>
     pino_write lg amb (Error, r) = [\<lparr> sink_level = Error, attachments = mixin lg amb, logged = r \<rparr>]"
  using level_rank_le_Error[of "threshold lg"] by (simp add: pino_write_def shouldEmit_def)

lemma sink_of_replayed_open:
  assumes "enabled lg" and "level_rank (threshold lg) \<le> level_rank Info"
    and "list_all (\<lambda>k. fst k = Info) cs"
  shows "sink_of lg amb cs =
           map (\<lambda>k. \<lparr> sink_level = fst k, attachments = mixin lg amb, logged = snd k \<rparr>) cs"
  using assms by (intro sink_of_all_open) (auto simp: list_all_iff)

lemma sink_of_replayed_closed:
  assumes "level_rank Info < level_rank (threshold lg)"
    and "list_all (\<lambda>k. fst k = Info) cs"
  shows "sink_of lg amb cs = []"
  using assms by (intro sink_of_all_closed) (auto simp: list_all_iff)

lemma sink_of_disabled: "\<not> enabled lg \<Longrightarrow> sink_of lg amb cs = []"
  by (induction cs) (simp_all add: sink_of_Nil sink_of_Cons pino_write_closed)

lemma sink_of_attachments:
  "\<forall>s \<in> set (sink_of lg amb cs). attachments s = mixin lg amb"
  by (induction cs) (auto simp: sink_of_Nil sink_of_Cons pino_write_def)

lemma error_calls_shape:
  assumes "formatErrorLog amb info = Inr r"
  shows "calls (ContextLogger_error L amb info) = (Error, r) # tl (calls (ContextLogger_error L amb info))
       \<and> list_all (\<lambda>k. fst k = Info) (tl (calls (ContextLogger_error L amb info)))"
proof (cases "enableLogStreams L \<and> hasStreamedLogs L amb")
  case False
  then show ?thesis using assms by (simp add: error_without_pending)
next
  case True
  then obtain p data p' where d: "logStreams L (executionId amb) = Some p" "readableData p \<noteq> []"
      "PassThrough_read p = (Some data, p')"
    using pending_read[of L amb] by blast
  have "calls (ContextLogger_error L amb info) = (Error, r) # fst (replay (String_split data LOG_SEP))"
    using error_with_pending[OF assms _ d] True by (simp split: prod.splits option.splits)
  then show ?thesis by (simp add: replay_levels)
qed

lemma flush_calls:
  assumes "enableLogStreams L"
    and "logStreams L c = None"
    and "\<forall>d \<in> set ds. executionId (fst d) = c \<and> wf_json (JObj (snd d))
            \<and> \<not> String_includes (record_text d) LOG_SEP"
    and "length (intercalate LOG_SEP (map record_text ds)) < defaultHighWaterMark L"
    and "executionId amb = c"
    and "formatErrorLog amb info = Inr r"
  shows "ContextLogger_error (final_state L (debug_calls ds)) amb info =
           \<lparr> state = (final_state L (debug_calls ds))
                \<lparr> logStreams := (logStreams (final_state L (debug_calls ds)))(c := None) \<rparr>,
             calls = (Error, r) # map (\<lambda>d. (Info, formatLog (fst d) (snd d))) ds,
             raised = None \<rparr>"
proof (cases "ds = []")
  case True
  have "\<not> hasStreamedLogs L amb" using assms(2,5) by (simp add: hasStreamedLogs_iff)
  then have "ContextLogger_error L amb info = \<lparr> state = L, calls = [(Error, r)], raised = None \<rparr>"
    using assms(6) by (intro error_without_pending) auto
  moreover have "L\<lparr> logStreams := (logStreams L)(c := None) \<rparr> = L"
    using assms(2) by (simp add: fun_upd_idem)
  ultimately show ?thesis by (simp add: True debug_calls_def)
next
  case False
  let ?L = "final_state L (debug_calls ds)"
  let ?data = "intercalate LOG_SEP (map record_text ds)"
  let ?p = "idle_stream (defaultHighWaterMark L) ?data"
  have buf: "logStreams ?L (executionId amb) = Some ?p"
    using assms(1,2,3,4,5) False by (simp add: debugs_from_empty)
  have ne: "?data \<noteq> []"
    using False by (intro intercalate_nonempty) (auto simp: record_text_nonempty)
  then have ne': "readableData ?p \<noteq> []" by (simp add: idle_stream_def)
  have rd: "PassThrough_read ?p = (Some ?data, idle_stream (defaultHighWaterMark L) [])"
    using ne by (rule read_idle)
  have split: "String_split ?data LOG_SEP = map record_text ds"
    using False assms(3) by (intro String_split_LOG_SEP) auto
  have rp: "replay (map record_text ds) = (map (\<lambda>d. (Info, formatLog (fst d) (snd d))) ds, None)"
    using assms(3) by (intro replay_records) auto
  have "enableLogStreams ?L" using assms(1) by (simp add: final_state_static)
  from error_with_pending[OF assms(6) this buf ne' rd]
  show ?thesis by (simp add: split rp assms(5))
qed

subsection \<open>Calls under different identifiers\<close>

lemma debug_other_context:
  "executionId amb \<noteq> c \<Longrightarrow> logStreams (state (ContextLogger_debug L amb info)) c = logStreams L c"
  by (auto simp: ContextLogger_debug_def SimpleLogger_debug_def createLogStream_def
      write_current_def Let_def split: option.splits)

lemma flush_other_context:
  "executionId amb \<noteq> c \<Longrightarrow> logStreams (snd (flushLogStream L amb)) c = logStreams L c"
  by (auto simp: flushLogStream_def split: option.splits prod.splits)

lemma error_other_context:
  "executionId amb \<noteq> c \<Longrightarrow> logStreams (state (ContextLogger_error L amb info)) c = logStreams L c"
  using flush_other_context[of amb c L]
  by (auto simp: ContextLogger_error_def SimpleLogger_error_def deleteLogStream_def Let_def
      split: sum.splits prod.splits option.splits)

lemma perform_other_context:
  "executionId amb \<noteq> c \<Longrightarrow> logStreams (state (perform L amb k)) c = logStreams L c"
  by (cases k) (simp_all add: debug_other_context error_other_context SimpleLogger_info_def
      SimpleLogger_warn_def createLogStream_def deleteLogStream_def)

lemma debug_same_context:
  assumes "agree_on (executionId amb) L1 L2"
  shows "calls (ContextLogger_debug L1 amb info) = calls (ContextLogger_debug L2 amb info)
       \<and> raised (ContextLogger_debug L1 amb info) = raised (ContextLogger_debug L2 amb info)
       \<and> logStreams (state (ContextLogger_debug L1 amb info)) (executionId amb)
           = logStreams (state (ContextLogger_debug L2 amb info)) (executionId amb)"
proof (cases "enableLogStreams L1")
  case True
  then have e2: "enableLogStreams L2" using assms by (simp add: agree_on_def)
  have h: "defaultHighWaterMark L1 = defaultHighWaterMark L2"
    and s: "logStreams L1 (executionId amb) = logStreams L2 (executionId amb)"
    using assms by (simp_all add: agree_on_def)
  show ?thesis
    unfolding debug_buffered[OF True] debug_buffered[OF e2] h s by simp
next
  case False
  then have "\<not> enableLogStreams L2" using assms by (simp add: agree_on_def)
  then show ?thesis
    using False assms by (simp add: ContextLogger_debug_def SimpleLogger_debug_def agree_on_def)
qed

lemma error_same_context:
  assumes "agree_on (executionId amb) L1 L2"
  shows "calls (ContextLogger_error L1 amb info) = calls (ContextLogger_error L2 amb info)
       \<and> raised (ContextLogger_error L1 amb info) = raised (ContextLogger_error L2 amb info)
       \<and> logStreams (state (ContextLogger_error L1 amb info)) (executionId amb)
           = logStreams (state (ContextLogger_error L2 amb info)) (executionId amb)"
proof (cases "formatErrorLog amb info")
  case (Inl x)
  then show ?thesis using assms by (simp add: error_throws agree_on_def)
next
  case (Inr r)
  show ?thesis
  proof (cases "enableLogStreams L1 \<and> hasStreamedLogs L1 amb")
    case False
    then have "\<not> (enableLogStreams L2 \<and> hasStreamedLogs L2 amb)"
      using assms by (simp add: agree_on_def hasStreamedLogs_def)
    then show ?thesis
      using False Inr assms by (simp add: error_without_pending agree_on_def)
  next
    case True
    then obtain p data p' where d1: "logStreams L1 (executionId amb) = Some p" "readableData p \<noteq> []"
        "PassThrough_read p = (Some data, p')"
      using pending_read[of L1 amb] by blast
    then have d2: "logStreams L2 (executionId amb) = Some p"
      using assms by (simp add: agree_on_def)
    have e2: "enableLogStreams L2" using True assms by (simp add: agree_on_def)
    show ?thesis
      using error_with_pending[OF Inr _ d1] error_with_pending[OF Inr e2 d2 d1(2,3)] True
      by (simp split: prod.splits option.splits)
  qed
qed

lemma perform_same_context:
  assumes "agree_on (executionId amb) L1 L2"
  shows "calls (perform L1 amb k) = calls (perform L2 amb k)
       \<and> raised (perform L1 amb k) = raised (perform L2 amb k)
       \<and> agree_on (executionId amb) (state (perform L1 amb k)) (state (perform L2 amb k))"
proof -
  have static: "logger (state (perform L1 amb k)) = logger (state (perform L2 amb k))"
      "enableLogStreams (state (perform L1 amb k)) = enableLogStreams (state (perform L2 amb k))"
      "defaultHighWaterMark (state (perform L1 amb k)) = defaultHighWaterMark (state (perform L2 amb k))"
    using assms by (simp_all add: perform_static agree_on_def)
  show ?thesis
  proof (cases k)
    case (DebugCall i)
    then show ?thesis using debug_same_context[OF assms, of i] static by (simp add: agree_on_def)
  next
    case (ErrorCall i)
    then show ?thesis using error_same_context[OF assms, of i] static by (simp add: agree_on_def)
  next
    case (InfoCall i)
    then show ?thesis using assms by (simp add: SimpleLogger_info_def agree_on_def)
  next
    case (WarnCall i)
    then show ?thesis using assms by (simp add: SimpleLogger_warn_def agree_on_def)
  next
    case CreateLogStreamCall
    then show ?thesis using assms by (simp add: createLogStream_def agree_on_def)
  next
    case DeleteLogStreamCall
    then show ?thesis using assms by (simp add: deleteLogStream_def agree_on_def)
  qed
qed

lemma perform_other_agree:
  "executionId amb \<noteq> c \<Longrightarrow> agree_on c L1 L2 \<Longrightarrow> agree_on c (state (perform L1 amb k)) L2"
  by (simp add: agree_on_def perform_static perform_other_context)

lemma isolation_agree:
  "agree_on c L1 L2 \<Longrightarrow>
     observed c L1 tr = observed c L2 (calls_under c tr)
   \<and> agree_on c (final_state L1 tr) (final_state L2 (calls_under c tr))"
proof (induction tr arbitrary: L1 L2)
  case Nil
  then show ?case by (simp add: calls_under_def)
next
  case (Cons s tr)
  obtain amb k where s: "s = (amb, k)" by (cases s)
  show ?case
  proof (cases "executionId amb = c")
    case True
    have step: "calls (perform L1 amb k) = calls (perform L2 amb k)"
      "raised (perform L1 amb k) = raised (perform L2 amb k)"
      "agree_on c (state (perform L1 amb k)) (state (perform L2 amb k))"
      using perform_same_context[of amb L1 L2 k] Cons.prems True by auto
    show ?thesis
      using Cons.IH[OF step(3)] step(1,2) True by (simp add: s calls_under_def)
  next
    case False
    have "agree_on c (state (perform L1 amb k)) L2"
      using False Cons.prems by (rule perform_other_agree)
    from Cons.IH[OF this] show ?thesis
      using False by (simp add: s calls_under_def)
  qed
qed

subsection \<open>Object spread as a map\<close>

lemma map_of_upsert: "map_of (upsert k v ps) = (map_of ps)(k \<mapsto> v)"
  by (induction ps) (auto simp: fun_eq_iff)

lemma keys_upsert: "fst ` set (upsert k v ps) = insert k (fst ` set ps)"
  by (induction ps) auto

lemma distinct_upsert: "distinct (map fst ps) \<Longrightarrow> distinct (map fst (upsert k v ps))"
  by (induction ps) (auto simp: keys_upsert)

lemma distinct_fold_upsert:
  "distinct (map fst a) \<Longrightarrow> distinct (map fst (fold (\<lambda>kv acc. upsert (fst kv) (snd kv) acc) b a))"
  by (induction b arbitrary: a) (simp_all add: distinct_upsert)

lemma map_of_fold_upsert:
  "map_of (fold (\<lambda>kv acc. upsert (fst kv) (snd kv) acc) b a) = map_of a ++ map_of (rev b)"
proof (induction b arbitrary: a)
  case Nil
  then show ?case by simp
next
  case (Cons kv b)
  have "map_of (fold (\<lambda>kv acc. upsert (fst kv) (snd kv) acc) b (upsert (fst kv) (snd kv) a))
          = map_of (upsert (fst kv) (snd kv) a) ++ map_of (rev b)"
    by (rule Cons.IH)
  then show ?case
    by (cases kv) (simp add: map_of_upsert map_add_upd_left fun_eq_iff map_add_def split: option.splits)
qed

lemma map_of_rev_distinct: "distinct (map fst b) \<Longrightarrow> map_of (rev b) = map_of b"
  by (rule map_of_inject_set[THEN iffD2]) (simp_all add: distinct_rev rev_map[symmetric])

lemma set_js_order: "set (js_order ps) = set ps"
  by (auto simp: js_order_def)

lemma length_js_order: "length (js_order ps) = length ps"
  using sum_length_filter_compl[of "\<lambda>p. array_index (fst p) \<noteq> None" ps]
  by (simp add: js_order_def)

lemma distinct_js_order:
  assumes "distinct (map fst ps)"
  shows "distinct (map fst (js_order ps))"
proof -
  have "card (set (map fst (js_order ps))) = card (set (map fst ps))"
    by (simp add: set_js_order)
  also have "\<dots> = length (map fst ps)" using assms by (rule distinct_card)
  also have "\<dots> = length (map fst (js_order ps))" by (simp add: length_js_order)
  finally show ?thesis by (rule card_distinct)
qed

lemma map_of_js_order: "distinct (map fst ps) \<Longrightarrow> map_of (js_order ps) = map_of ps"
  by (rule map_of_inject_set[THEN iffD2]) (simp_all add: distinct_js_order set_js_order)

lemma map_of_spread:
  assumes "distinct (map fst a)" and "distinct (map fst b)"
  shows "map_of (spread a b) = map_of a ++ map_of b"
  using assms
  by (simp add: spread_def map_of_js_order distinct_fold_upsert map_of_fold_upsert map_of_rev_distinct)

lemma js_order_base:
  "js_order [(''type'', t), (''message'', m)] = [(''type'', t), (''message'', m)]"
  by (simp add: js_order_def array_index_def is_digit_def)

lemma spread_base_Nil: "spread [(''type'', t), (''message'', m)] [] = [(''type'', t), (''message'', m)]"
  by (simp add: spread_def js_order_base)

section \<open>Flush ordering\<close>

text \<open>
  C1 (flush ordering), as the code has it. Take a logger with buffering enabled, an
  execution identifier \<open>c\<close> with no buffer, and debug calls \<open>d1 \<dots> dn\<close> made under \<open>c\<close>
  whose payloads are values of the model (JSON data without numbers), whose serialized
  records do not contain \<open>LOG_SEP\<close>, and whose serialized records, joined by \<open>LOG_SEP\<close>,
  are shorter than the high-water mark of the stream. An error call under \<open>c\<close> whose
  error serializes (its \<open>toJSON\<close> does not throw) then does not raise; it hands to the
  logger the error record first and then \<open>d1 \<dots> dn\<close> at info level in call order; and no
  buffer exists for \<open>c\<close> afterwards. The sink observes exactly these records, with the
  attachments produced at the error call, when the logger is enabled and its threshold is
  debug or info; the error record only, when it is enabled and its threshold is warn or
  error; and nothing when it is disabled. The claim as stated, for every logger with
  buffering enabled, does not hold: the replayed records pass pino's gate like any info
  record, as the counterexample below shows.
\<close>

theorem flush_ordering:
  assumes "enableLogStreams L"
    and "logStreams L c = None"
    and "\<forall>d \<in> set ds. executionId (fst d) = c \<and> wf_json (JObj (snd d))
            \<and> \<not> String_includes (record_text d) LOG_SEP"
    and "length (intercalate LOG_SEP (map record_text ds)) < defaultHighWaterMark L"
    and "executionId amb = c"
    and "formatErrorLog amb info = Inr r"
  shows "sink L (debug_calls ds @ [(amb, ErrorCall info)]) =
           (if enabled (logger L) then
              \<lparr> sink_level = Error, attachments = mixin (logger L) amb, logged = r \<rparr>
              # (if level_rank (threshold (logger L)) \<le> level_rank Info
                 then map (\<lambda>d. \<lparr> sink_level = Info, attachments = mixin (logger L) amb,
                                logged = formatLog (fst d) (snd d) \<rparr>) ds
                 else [])
            else [])
       \<and> calls (ContextLogger_error (final_state L (debug_calls ds)) amb info)
           = (Error, r) # map (\<lambda>d. (Info, formatLog (fst d) (snd d))) ds
       \<and> raised (ContextLogger_error (final_state L (debug_calls ds)) amb info) = None
       \<and> logStreams (final_state L (debug_calls ds @ [(amb, ErrorCall info)])) c = None"
proof -
  let ?L = "final_state L (debug_calls ds)"
  let ?replayed = "map (\<lambda>d. (Info, formatLog (fst d) (snd d))) ds"
  have res: "ContextLogger_error ?L amb info =
           \<lparr> state = ?L\<lparr> logStreams := (logStreams ?L)(c := None) \<rparr>,
             calls = (Error, r) # ?replayed, raised = None \<rparr>"
    using assms by (rule flush_calls)
  have quiet: "sink L (debug_calls ds) = []"
    using assms(1) by (rule sink_debug_calls)
  have info: "list_all (\<lambda>k. fst k = Info) ?replayed"
    by (simp add: list_all_iff)
  have low: "sink_of (logger L) amb ?replayed
      = map (\<lambda>d. \<lparr> sink_level = Info, attachments = mixin (logger L) amb,
                     logged = formatLog (fst d) (snd d) \<rparr>) ds"
    if "enabled (logger L)" "level_rank (threshold (logger L)) \<le> level_rank Info"
    using sink_of_replayed_open[OF that info, of amb] by (simp add: comp_def)
  have high: "sink_of (logger L) amb ?replayed = []"
    if "\<not> level_rank (threshold (logger L)) \<le> level_rank Info"
    using that info by (intro sink_of_replayed_closed) simp_all
  have "sink L (debug_calls ds @ [(amb, ErrorCall info)])
      = sink_of (logger L) amb ((Error, r) # ?replayed)"
    by (simp add: sink_append quiet res final_state_static)
  also have "\<dots> =
           (if enabled (logger L) then
              \<lparr> sink_level = Error, attachments = mixin (logger L) amb, logged = r \<rparr>
              # (if level_rank (threshold (logger L)) \<le> level_rank Info
                 then map (\<lambda>d. \<lparr> sink_level = Info, attachments = mixin (logger L) amb,
                                logged = formatLog (fst d) (snd d) \<rparr>) ds
                 else [])
            else [])"
  proof (cases "enabled (logger L)")
    case True
    then show ?thesis
      using low high by (simp add: sink_of_Cons pino_write_Error del: level_rank.simps)
  next
    case False
    then show ?thesis by (simp add: sink_of_disabled)
  qed
  finally show ?thesis
    by (simp add: final_state_append res)
qed

text \<open>
  The scenario of the specification: level debug, buffering enabled, identifier \<open>A\<close>,
  \<open>debug({name: "x"})\<close>, \<open>debug({name: "y"})\<close>, then \<open>error\<close> with message \<open>Oops\<close>.
\<close>

theorem flush_ordering_witness:
  "sink (scenario_logger Debug)
        [(at_A, DebugCall [(''name'', JStr ''x'')]), (at_A, DebugCall [(''name'', JStr ''y'')]),
         (at_A_later, ErrorCall failure)] =
     [\<lparr> sink_level = Error,
        attachments = [(''executionId'', ''A''), (''clock'', ''2024-01-01T00:00:05.000Z'')],
        logged = failure_record \<rparr>,
      \<lparr> sink_level = Info,
        attachments = [(''executionId'', ''A''), (''clock'', ''2024-01-01T00:00:05.000Z'')],
        logged = JObj [(''time'', JStr ''2024-01-01T00:00:00.000Z''), (''event'', JObj [(''name'', JStr ''x'')])] \<rparr>,
      \<lparr> sink_level = Info,
        attachments = [(''executionId'', ''A''), (''clock'', ''2024-01-01T00:00:05.000Z'')],
        logged = JObj [(''time'', JStr ''2024-01-01T00:00:00.000Z''), (''event'', JObj [(''name'', JStr ''y'')])] \<rparr>]
   \<and> logStreams (final_state (scenario_logger Debug)
        [(at_A, DebugCall [(''name'', JStr ''x'')]), (at_A, DebugCall [(''name'', JStr ''y'')]),
         (at_A_later, ErrorCall failure)]) ''A'' = None"
proof -
  let ?ds = "[(at_A, [(''name'', JStr ''x'')]), (at_A, [(''name'', JStr ''y'')])]"
  have h1: "enableLogStreams (scenario_logger Debug)" by code_simp
  have h2: "logStreams (scenario_logger Debug) ''A'' = None" by code_simp
  have h3: "\<forall>d \<in> set ?ds. executionId (fst d) = ''A'' \<and> wf_json (JObj (snd d))
            \<and> \<not> String_includes (record_text d) LOG_SEP" by code_simp
  have h4: "length (intercalate LOG_SEP (map record_text ?ds)) < defaultHighWaterMark (scenario_logger Debug)"
    by code_simp
  have h5: "executionId at_A_later = ''A''" by code_simp
  have h6: "formatErrorLog at_A_later failure = Inr failure_record" by code_simp
  have g: "enabled (logger (scenario_logger Debug))"
    "level_rank (threshold (logger (scenario_logger Debug))) \<le> level_rank Info" by code_simp+
  have m: "mixin (logger (scenario_logger Debug)) at_A_later
             = [(''executionId'', ''A''), (''clock'', ''2024-01-01T00:00:05.000Z'')]" by code_simp
  show ?thesis
    using flush_ordering[OF h1 h2 h3 h4 h5 h6] g
    by (simp add: debug_calls_def m formatLog_def at_A_def
             del: level_rank.simps sink.simps final_state.simps)
qed

text \<open>
  The same calls on a logger whose threshold is error: the sink observes the error record
  only, and neither debug record.
\<close>

theorem flush_gated_counterexample:
  "sink (scenario_logger Error)
        [(at_A, DebugCall [(''name'', JStr ''x'')]), (at_A, DebugCall [(''name'', JStr ''y'')]),
         (at_A_later, ErrorCall failure)] =
     [\<lparr> sink_level = Error,
        attachments = [(''executionId'', ''A''), (''clock'', ''2024-01-01T00:00:05.000Z'')],
        logged = failure_record \<rparr>]"
  by code_simp

text \<open>
  Why the theorem bounds the buffered text by the mark. With a high-water mark of 50
  bytes the first record fills the readable side of the stream, so the delimiter and the
  second record wait on the writable side. The error call reads the first record and the
  delimiter behind it, replays the first record, and raises the SyntaxError of JSON.parse
  on the empty segment after the delimiter. The second record is not replayed; it stays
  in the stream, which stays registered.
\<close>

lemma flush_above_the_mark:
  "calls (ContextLogger_error
       (final_state small_mark_logger
          [(at_A, DebugCall [(''name'', JStr ''x'')]), (at_A, DebugCall [(''name'', JStr ''y'')])])
       at_A_later failure)
     = [(Error, failure_record), (Info, formatLog at_A [(''name'', JStr ''x'')])]
   \<and> raised (ContextLogger_error
       (final_state small_mark_logger
          [(at_A, DebugCall [(''name'', JStr ''x'')]), (at_A, DebugCall [(''name'', JStr ''y'')])])
       at_A_later failure)
     = Some SyntaxError
   \<and> logStreams (state (ContextLogger_error
       (final_state small_mark_logger
          [(at_A, DebugCall [(''name'', JStr ''x'')]), (at_A, DebugCall [(''name'', JStr ''y'')])])
       at_A_later failure)) ''A''
     = Some \<lparr> highWaterMark = 50, readableData = [], writing = True,
              buffered = [record_text (at_A, [(''name'', JStr ''y'')])] \<rparr>"
  by code_simp

section \<open>A segment that does not parse\<close>

text \<open>
  C3, as the code has it. An error call with buffering enabled reads the stream, splits
  what it read on \<open>LOG_SEP\<close> and parses the segments in order. When a segment does not
  parse, the segments before it have been logged at info level after the error record,
  the SyntaxError of JSON.parse is raised to the caller, no later segment is logged, and
  the stream, its readable side drained, stays registered. The code has no handler around
  the parse, so a malformed segment is not skipped.
\<close>

theorem flush_stops_at_malformed_segment:
  assumes "enableLogStreams L"
    and "logStreams L (executionId amb) = Some p"
    and "readableData p \<noteq> []"
    and "PassThrough_read p = (Some data, p')"
    and "String_split data LOG_SEP = good @ bad # later"
    and "map JSON_parse good = map Some vs"
    and "JSON_parse bad = None"
    and "formatErrorLog amb info = Inr r"
  shows "ContextLogger_error L amb info =
           \<lparr> state = L\<lparr> logStreams := (logStreams L)(executionId amb \<mapsto> p') \<rparr>,
             calls = (Error, r) # map (\<lambda>v. (Info, v)) vs,
             raised = Some SyntaxError \<rparr>
       \<and> readableData p' = []"
proof -
  have "replay (good @ bad # later) = (map (\<lambda>v. (Info, v)) vs, Some SyntaxError)"
    using assms(6,7)
  proof (induction good arbitrary: vs)
    case Nil
    then show ?case by simp
  next
    case (Cons g good)
    then obtain v vs' where vs: "vs = v # vs'" "JSON_parse g = Some v" "map JSON_parse good = map Some vs'"
      by (cases vs) auto
    then show ?case using Cons.IH[OF vs(3) Cons.prems(2)] by simp
  qed
  moreover have "readableData p' = []"
    using read_drains[of p] assms(4) by simp
  ultimately show ?thesis
    using error_with_pending[OF assms(8,1,2,3,4)] by (simp add: assms(5))
qed

text \<open>
  Three debug calls under \<open>A\<close>, the second with a payload that holds the text of
  \<open>LOG_SEP\<close>: the error call logs the error record and the first debug record, then
  raises.
\<close>

theorem flush_stops_at_malformed_segment_witness:
  "ContextLogger_error
     (final_state (scenario_logger Debug)
        [(at_A, DebugCall [(''name'', JStr ''x'')]), (at_A, DebugCall collision),
         (at_A, DebugCall [(''name'', JStr ''y'')])])
     at_A_later failure =
   \<lparr> state = (final_state (scenario_logger Debug)
        [(at_A, DebugCall [(''name'', JStr ''x'')]), (at_A, DebugCall collision),
         (at_A, DebugCall [(''name'', JStr ''y'')])])
        \<lparr> logStreams := (logStreams (final_state (scenario_logger Debug)
           [(at_A, DebugCall [(''name'', JStr ''x'')]), (at_A, DebugCall collision),
            (at_A, DebugCall [(''name'', JStr ''y'')])]))(''A'' \<mapsto> idle_stream 65536 []) \<rparr>,
     calls = [(Error, failure_record), (Info, formatLog at_A [(''name'', JStr ''x'')])],
     raised = Some SyntaxError \<rparr>"
proof -
  let ?L = "final_state (scenario_logger Debug)
        [(at_A, DebugCall [(''name'', JStr ''x'')]), (at_A, DebugCall collision),
         (at_A, DebugCall [(''name'', JStr ''y'')])]"
  let ?data = "intercalate LOG_SEP [record_text (at_A, [(''name'', JStr ''x'')]),
                  record_text (at_A, collision), record_text (at_A, [(''name'', JStr ''y'')])]"
  let ?segs = "String_split ?data LOG_SEP"
  have h1: "enableLogStreams ?L" by code_simp
  have h2: "logStreams ?L (executionId at_A_later) = Some (idle_stream 65536 ?data)" by code_simp
  have h3: "readableData (idle_stream 65536 ?data) \<noteq> []" by code_simp
  have h4: "PassThrough_read (idle_stream 65536 ?data) = (Some ?data, idle_stream 65536 [])"
    by code_simp
  have h5: "?segs = [record_text (at_A, [(''name'', JStr ''x'')])] @ (?segs ! 1) # drop 2 ?segs"
    by code_simp
  have h6: "map JSON_parse [record_text (at_A, [(''name'', JStr ''x'')])]
              = map Some [formatLog at_A [(''name'', JStr ''x'')]]" by code_simp
  have h7: "JSON_parse (?segs ! 1) = None" by code_simp
  have h8: "formatErrorLog at_A_later failure = Inr failure_record" by code_simp
  have id: "executionId at_A_later = ''A''" by code_simp
  show ?thesis
    using flush_stops_at_malformed_segment[OF h1 h2 h3 h4 h5 h6 h7 h8] by (simp add: id)
qed

text \<open>
  Two debug calls under \<open>A\<close>, the first with the colliding payload. The first segment does
  not parse: the error call raises and logs the error record only, although the last
  segment is the well-formed record of the second debug call.
\<close>

theorem flush_raises_counterexample:
  "raised (ContextLogger_error
     (final_state (scenario_logger Debug)
        [(at_A, DebugCall collision), (at_A, DebugCall [(''name'', JStr ''y'')])])
     at_A_later failure) = Some SyntaxError
   \<and> calls (ContextLogger_error
     (final_state (scenario_logger Debug)
        [(at_A, DebugCall collision), (at_A, DebugCall [(''name'', JStr ''y'')])])
     at_A_later failure) = [(Error, failure_record)]
   \<and> JSON_parse (last (String_split (intercalate LOG_SEP
        [record_text (at_A, collision), record_text (at_A, [(''name'', JStr ''y'')])]) LOG_SEP))
       = Some (formatLog at_A [(''name'', JStr ''y'')])"
  by code_simp

section \<open>The delimiter\<close>

text \<open>
  C4 at the payload \<open>{name: "a<LOGEND>b"}\<close>. JSON.stringify leaves the characters of
  \<open>LOG_SEP\<close> as they are, so the serialized record contains the delimiter; the stream
  after the debug call holds that one record, a read returns it, and splitting it on
  \<open>LOG_SEP\<close> yields two segments, neither of them the record.
\<close>

theorem delimiter_collision:
  "String_includes (JSON_stringify (formatLog at_A collision)) LOG_SEP
   \<and> logStreams (state (ContextLogger_debug (scenario_logger Debug) at_A collision)) ''A''
       = Some (idle_stream 65536 (JSON_stringify (formatLog at_A collision)))
   \<and> fst (PassThrough_read (idle_stream 65536 (JSON_stringify (formatLog at_A collision))))
       = Some (JSON_stringify (formatLog at_A collision))
   \<and> length (String_split (JSON_stringify (formatLog at_A collision)) LOG_SEP) = 2
   \<and> String_split (JSON_stringify (formatLog at_A collision)) LOG_SEP
       \<noteq> [JSON_stringify (formatLog at_A collision)]"
  by code_simp

section \<open>Suppression\<close>

text \<open>
  C6 (suppression): with buffering enabled, any sequence of debug calls followed by
  \<open>deleteLogStream\<close> writes nothing to the sink, and the identifier under which the
  stream is deleted has no buffer afterwards.
\<close>

theorem suppression:
  assumes "enableLogStreams L"
  shows "sink L (debug_calls ds @ [(amb, DeleteLogStreamCall)]) = []
       \<and> logStreams (final_state L (debug_calls ds @ [(amb, DeleteLogStreamCall)])) (executionId amb) = None"
  using assms
  by (simp add: sink_append sink_debug_calls final_state_append sink_of_Nil deleteLogStream_def)

theorem suppression_witness:
  "sink (scenario_logger Debug)
     [(at_A, DebugCall [(''name'', JStr ''x'')]), (at_A, DebugCall [(''name'', JStr ''y'')]),
      (at_A_later, DeleteLogStreamCall)] = []
   \<and> logStreams (final_state (scenario_logger Debug)
     [(at_A, DebugCall [(''name'', JStr ''x'')]), (at_A, DebugCall [(''name'', JStr ''y'')]),
      (at_A_later, DeleteLogStreamCall)]) ''A'' = None"
proof -
  have h: "enableLogStreams (scenario_logger Debug)" by code_simp
  have id: "executionId at_A_later = ''A''" by code_simp
  show ?thesis
    using suppression[OF h, of "[(at_A, [(''name'', JStr ''x'')]), (at_A, [(''name'', JStr ''y'')])]" at_A_later]
    by (simp add: debug_calls_def id)
qed

section \<open>Isolation\<close>

text \<open>
  C7 (isolation): in any interleaving of calls under any identifiers, what the calls
  under identifier \<open>c\<close> hand to the logger and raise is what they do when the calls under
  the other identifiers are left out, and so is the buffer of \<open>c\<close> at the end; a call
  under another identifier, a flush included, leaves the buffer of \<open>c\<close> as it is. So a
  record logged under \<open>A\<close> is never replayed by a flush under \<open>B\<close>, and a flush drains
  only the buffer of its own identifier.
\<close>

theorem isolation:
  "observed c L tr = observed c L (calls_under c tr)
   \<and> logStreams (final_state L tr) c = logStreams (final_state L (calls_under c tr)) c
   \<and> (\<forall>amb k. executionId amb \<noteq> c \<longrightarrow> logStreams (state (perform L amb k)) c = logStreams L c)"
  using isolation_agree[of c L L tr]
  by (simp add: agree_on_def perform_other_context)

text \<open>
  Debug calls under \<open>A\<close> and \<open>B\<close>, then a flush under \<open>B\<close>, then a flush under \<open>A\<close>: the
  flush under \<open>B\<close> leaves the buffer of \<open>A\<close> alone, and the flush under \<open>A\<close> replays the
  record of \<open>A\<close> and nothing of \<open>B\<close>.
\<close>

theorem isolation_witness:
  "observed ''A'' (scenario_logger Debug)
     [(at_A, DebugCall [(''name'', JStr ''a1'')]), (at_B, DebugCall [(''name'', JStr ''b1'')]),
      (at_B, ErrorCall failure), (at_A_later, ErrorCall failure)]
     = [([], None),
        ([(Error, failure_record), (Info, formatLog at_A [(''name'', JStr ''a1'')])], None)]
   \<and> logStreams (state (perform
         (final_state (scenario_logger Debug) [(at_A, DebugCall [(''name'', JStr ''a1'')])])
         at_B (ErrorCall failure))) ''A''
      = logStreams (final_state (scenario_logger Debug) [(at_A, DebugCall [(''name'', JStr ''a1'')])]) ''A''"
proof -
  let ?tr = "[(at_A, DebugCall [(''name'', JStr ''a1'')]), (at_B, DebugCall [(''name'', JStr ''b1'')]),
      (at_B, ErrorCall failure), (at_A_later, ErrorCall failure)]"
  have alone: "observed ''A'' (scenario_logger Debug) (calls_under ''A'' ?tr)
     = [([], None),
        ([(Error, failure_record), (Info, formatLog at_A [(''name'', JStr ''a1'')])], None)]"
    by code_simp
  have other: "executionId at_B \<noteq> ''A''" by code_simp
  have frame: "logStreams (state (perform
         (final_state (scenario_logger Debug) [(at_A, DebugCall [(''name'', JStr ''a1'')])])
         at_B (ErrorCall failure))) ''A''
      = logStreams (final_state (scenario_logger Debug) [(at_A, DebugCall [(''name'', JStr ''a1'')])]) ''A''"
    using isolation[of "''A''" "final_state (scenario_logger Debug) [(at_A, DebugCall [(''name'', JStr ''a1'')])]" "[]",
        THEN conjunct2, THEN conjunct2, rule_format, OF other] .
  show ?thesis
    using isolation[of "''A''" "scenario_logger Debug" ?tr, THEN conjunct1] alone frame
    by simp
qed

section \<open>Buffered debug calls and the level gate\<close>

text \<open>
  C10: with buffering enabled, whatever the threshold \<open>t\<close> and the enabled flag \<open>e\<close> of
  the logger, a debug call hands nothing to the logger, does not raise, and writes to the
  stream of the current execution identifier, which it creates when there is none:
  \<open>LOG_SEP\<close> when the readable side of the stream holds text, and then its serialized
  record. So the text the stream holds grows by exactly that.
\<close>

theorem debug_bypasses_gate:
  "(let L = \<lparr> logger = \<lparr> threshold = t, enabled = e, mixin = m \<rparr>, enableLogStreams = True,
              logStreams = S, defaultHighWaterMark = h \<rparr>;
        p = (case S (executionId amb) of None \<Rightarrow> PassThrough_new h | Some p \<Rightarrow> p);
        q = PassThrough_write (if readableLength p \<noteq> 0 then PassThrough_write p LOG_SEP else p)
              (JSON_stringify (formatLog amb info))
    in calls (ContextLogger_debug L amb info) = []
     \<and> raised (ContextLogger_debug L amb info) = None
     \<and> state (ContextLogger_debug L amb info) = L\<lparr> logStreams := S(executionId amb \<mapsto> q) \<rparr>
     \<and> ((\<not> writing p \<longrightarrow> buffered p = []) \<longrightarrow>
          held q = held p @ (if readableLength p \<noteq> 0 then LOG_SEP else [])
                     @ JSON_stringify (formatLog amb info)))"
proof (cases "S (executionId amb)")
  case None
  then show ?thesis
    by (simp add: debug_buffered Let_def held_write PassThrough_new_def readableLength_def)
next
  case (Some p)
  then show ?thesis
    by (simp add: debug_buffered Let_def held_write queue_write)
qed

text \<open>
  A disabled logger with threshold error and no stream yet: the debug call still puts its
  record on the readable side of a new stream.
\<close>

theorem debug_bypasses_gate_witness:
  "calls (ContextLogger_debug \<lparr> logger = \<lparr> threshold = Error, enabled = False, mixin = (\<lambda>_. []) \<rparr>,
             enableLogStreams = True, logStreams = Map.empty, defaultHighWaterMark = 65536 \<rparr>
            at_A [(''name'', JStr ''x'')]) = []
   \<and> logStreams (state (ContextLogger_debug \<lparr> logger = \<lparr> threshold = Error, enabled = False, mixin = (\<lambda>_. []) \<rparr>,
             enableLogStreams = True, logStreams = Map.empty, defaultHighWaterMark = 65536 \<rparr>
            at_A [(''name'', JStr ''x'')])) ''A''
       = Some (PassThrough_write (PassThrough_new 65536) (JSON_stringify (formatLog at_A [(''name'', JStr ''x'')])))
   \<and> held (PassThrough_write (PassThrough_new 65536) (JSON_stringify (formatLog at_A [(''name'', JStr ''x'')])))
       = JSON_stringify (formatLog at_A [(''name'', JStr ''x'')])"
  using debug_bypasses_gate[of Error False "\<lambda>_. []" Map.empty 65536 at_A "[(''name'', JStr ''x'')]"]
  by (simp add: at_A_def Let_def PassThrough_new_def readableLength_def held_def)

section \<open>The error record\<close>

text \<open>
  C5, as the code has it. An error call whose error serializes (its \<open>toJSON\<close> does not
  throw, so that \<open>formatErrorLog\<close> yields a record \<open>r\<close>) hands exactly one error-level
  record to the logger, \<open>r\<close>, before anything it replays, in either buffering mode and
  whatever the buffer holds; all it hands over afterwards is at info level. On an
  enabled logger \<open>r\<close> is the first record the sink observes of the call, whatever the
  threshold. When \<open>toJSON\<close> throws, no error record is written, as the counterexample
  below shows.
\<close>

theorem error_record_first:
  fixes S :: "'a SimpleLogger_scheme"
  assumes "formatErrorLog amb info = Inr r"
  shows "calls (SimpleLogger_error S amb info) = [(Error, r)]
       \<and> calls (ContextLogger_error L amb info) = (Error, r) # tl (calls (ContextLogger_error L amb info))
       \<and> filter (\<lambda>k. fst k = Error) (calls (ContextLogger_error L amb info)) = [(Error, r)]
       \<and> list_all (\<lambda>k. fst k = Info) (tl (calls (ContextLogger_error L amb info)))
       \<and> (enabled (logger L) \<longrightarrow>
            sink_of (logger L) amb (calls (ContextLogger_error L amb info)) =
              \<lparr> sink_level = Error, attachments = mixin (logger L) amb, logged = r \<rparr>
              # sink_of (logger L) amb (tl (calls (ContextLogger_error L amb info))))"
proof -
  let ?cs = "calls (ContextLogger_error L amb info)"
  have shape: "?cs = (Error, r) # tl ?cs" "list_all (\<lambda>k. fst k = Info) (tl ?cs)"
    using error_calls_shape[OF assms, of L] by simp_all
  have "filter (\<lambda>k. fst k = Error) (tl ?cs) = []"
    using shape(2) by (auto simp: list_all_iff filter_empty_conv)
  then have one: "filter (\<lambda>k. fst k = Error) ?cs = [(Error, r)]"
    by (subst shape(1)) simp
  have first: "enabled (logger L) \<Longrightarrow>
      sink_of (logger L) amb ?cs =
        \<lparr> sink_level = Error, attachments = mixin (logger L) amb, logged = r \<rparr>
        # sink_of (logger L) amb (tl ?cs)"
    by (subst shape(1)) (simp add: sink_of_Cons pino_write_Error)
  show ?thesis
    using assms shape one first by (simp add: SimpleLogger_error_def)
qed

text \<open>
  A logger with threshold warn and one buffered debug record: the error call hands over
  the error record, then the replayed record; the sink observes the error record.
\<close>

theorem error_record_first_witness:
  "calls (ContextLogger_error
            (final_state (scenario_logger Warn) [(at_A, DebugCall [(''name'', JStr ''x'')])])
            at_A_later failure)
     = [(Error, failure_record), (Info, formatLog at_A [(''name'', JStr ''x'')])]
   \<and> sink_of (logger (final_state (scenario_logger Warn) [(at_A, DebugCall [(''name'', JStr ''x'')])]))
        at_A_later
        (calls (ContextLogger_error
            (final_state (scenario_logger Warn) [(at_A, DebugCall [(''name'', JStr ''x'')])])
            at_A_later failure))
     = [\<lparr> sink_level = Error,
          attachments = [(''executionId'', ''A''), (''clock'', ''2024-01-01T00:00:05.000Z'')],
          logged = failure_record \<rparr>]"
proof -
  let ?L = "final_state (scenario_logger Warn) [(at_A, DebugCall [(''name'', JStr ''x'')])]"
  let ?cs = "calls (ContextLogger_error ?L at_A_later failure)"
  have h: "formatErrorLog at_A_later failure = Inr failure_record" by code_simp
  have e: "enabled (logger ?L)" by code_simp
  have rest: "tl ?cs = [(Info, formatLog at_A [(''name'', JStr ''x'')])]" by code_simp
  have gated: "sink_of (logger ?L) at_A_later [(Info, formatLog at_A [(''name'', JStr ''x'')])] = []"
    by code_simp
  have m: "mixin (logger ?L) at_A_later
             = [(''executionId'', ''A''), (''clock'', ''2024-01-01T00:00:05.000Z'')]" by code_simp
  note facts = error_record_first[OF h, of "scenario_logger Warn" ?L]
  have c: "?cs = (Error, failure_record) # tl ?cs"
    using facts by (rule conjunct2[THEN conjunct1])
  have s: "sink_of (logger ?L) at_A_later ?cs =
              \<lparr> sink_level = Error, attachments = mixin (logger ?L) at_A_later, logged = failure_record \<rparr>
              # sink_of (logger ?L) at_A_later (tl ?cs)"
    using facts e by blast
  have "?cs = [(Error, failure_record), (Info, formatLog at_A [(''name'', JStr ''x'')])]"
    using c by (simp only: rest)
  moreover have "sink_of (logger ?L) at_A_later ?cs =
     [\<lparr> sink_level = Error,
        attachments = [(''executionId'', ''A''), (''clock'', ''2024-01-01T00:00:05.000Z'')],
        logged = failure_record \<rparr>]"
    using s by (simp only: rest gated m)
  ultimately show ?thesis by (rule conjI)
qed

text \<open>
  An error whose \<open>toJSON\<close> throws: the error call hands no record to the logger, in
  either buffering mode, and the sink observes nothing.
\<close>

theorem no_error_record_counterexample:
  "filter (\<lambda>k. fst k = Error)
     (calls (ContextLogger_error (ContextLogger_new (scenario_setup Debug True) True 65536) at_A
        \<lparr> error = throwing_error, remainingInfo = [(''name'', JStr ''e'')] \<rparr>)) = []
   \<and> filter (\<lambda>k. fst k = Error)
     (calls (ContextLogger_error (ContextLogger_new (scenario_setup Debug True) False 65536) at_A
        \<lparr> error = throwing_error, remainingInfo = [(''name'', JStr ''e'')] \<rparr>)) = []
   \<and> sink (ContextLogger_new (scenario_setup Debug True) True 65536)
        [(at_A, ErrorCall \<lparr> error = throwing_error, remainingInfo = [(''name'', JStr ''e'')] \<rparr>)] = []"
  by code_simp

section \<open>Serializing the error\<close>

text \<open>
  C2, as the code has it. \<open>serializeError\<close> starts from the base fields \<open>type\<close> and
  \<open>message\<close>. When the error has no \<open>toJSON\<close>, or \<open>toJSON\<close> returns a value without own
  enumerable properties (null, a boolean), the error call does not raise and logs exactly
  the base fields. When \<open>toJSON\<close> returns a value, its own enumerable properties override
  and extend the base fields. When \<open>toJSON\<close> throws, nothing catches the exception: the
  error call raises it to its caller and logs nothing.
\<close>

theorem error_serialization_outcomes:
  fixes S :: "'a SimpleLogger_scheme"
  shows
  "(\<forall>x. toJSON (error info) = Some (Throws x) \<longrightarrow>
        SimpleLogger_error S amb info = \<lparr> state = S, calls = [], raised = Some x \<rparr>
      \<and> ContextLogger_error L amb info = \<lparr> state = L, calls = [], raised = Some x \<rparr>)
   \<and> (toJSON (error info) = None
        \<or> (\<exists>v. toJSON (error info) = Some (Returns v) \<and> own_properties v = []) \<longrightarrow>
        SimpleLogger_error S amb info =
          \<lparr> state = S,
            calls = [(Error, JObj [(''time'', JStr (nowUTC amb)),
                       (''event'', JObj (upsert ''error''
                          (JObj [(''type'', JStr (name (error info))),
                                 (''message'', JStr (message (error info)))])
                          (remainingInfo info)))])],
            raised = None \<rparr>)
   \<and> (\<forall>v. toJSON (error info) = Some (Returns v) \<longrightarrow>
        (\<exists>se. serializeError (error info) = Inr se
           \<and> SimpleLogger_error S amb info =
               \<lparr> state = S,
                 calls = [(Error, JObj [(''time'', JStr (nowUTC amb)),
                            (''event'', JObj (upsert ''error'' (JObj se) (remainingInfo info)))])],
                 raised = None \<rparr>
           \<and> (distinct (map fst (own_properties v)) \<longrightarrow>
                map_of se = map_of [(''type'', JStr (name (error info))),
                                    (''message'', JStr (message (error info)))]
                            ++ map_of (own_properties v))))"
proof (intro conjI allI impI)
  fix x
  assume t: "toJSON (error info) = Some (Throws x)"
  then have f: "formatErrorLog amb info = Inl x"
    by (simp add: formatErrorLog_def serializeError_def)
  then show "SimpleLogger_error S amb info = \<lparr> state = S, calls = [], raised = Some x \<rparr>"
    by (simp add: SimpleLogger_error_def)
  show "ContextLogger_error L amb info = \<lparr> state = L, calls = [], raised = Some x \<rparr>"
    using f by (rule error_throws)
next
  assume "toJSON (error info) = None
        \<or> (\<exists>v. toJSON (error info) = Some (Returns v) \<and> own_properties v = [])"
  then have "serializeError (error info) =
      Inr [(''type'', JStr (name (error info))), (''message'', JStr (message (error info)))]"
    by (auto simp: serializeError_def spread_base_Nil)
  then show "SimpleLogger_error S amb info =
          \<lparr> state = S,
            calls = [(Error, JObj [(''time'', JStr (nowUTC amb)),
                       (''event'', JObj (upsert ''error''
                          (JObj [(''type'', JStr (name (error info))),
                                 (''message'', JStr (message (error info)))])
                          (remainingInfo info)))])],
            raised = None \<rparr>"
    by (simp add: SimpleLogger_error_def formatErrorLog_def)
next
  fix v
  assume r: "toJSON (error info) = Some (Returns v)"
  let ?base = "[(''type'', JStr (name (error info))), (''message'', JStr (message (error info)))]"
  have se: "serializeError (error info) = Inr (spread ?base (own_properties v))"
    using r by (simp add: serializeError_def)
  show "\<exists>se. serializeError (error info) = Inr se
           \<and> SimpleLogger_error S amb info =
               \<lparr> state = S,
                 calls = [(Error, JObj [(''time'', JStr (nowUTC amb)),
                            (''event'', JObj (upsert ''error'' (JObj se) (remainingInfo info)))])],
                 raised = None \<rparr>
           \<and> (distinct (map fst (own_properties v)) \<longrightarrow>
                map_of se = map_of ?base ++ map_of (own_properties v))"
    using se by (simp add: SimpleLogger_error_def formatErrorLog_def map_of_spread)
qed

text \<open>
  The throwing error raises out of the error call; the plain error is logged with the
  base fields; the error of the README is logged with \<open>prop\<close> after the base fields.
\<close>

theorem error_serialization_outcomes_witness:
  "ContextLogger_error (scenario_logger Debug) at_A
       \<lparr> error = throwing_error, remainingInfo = [(''name'', JStr ''e'')] \<rparr>
     = \<lparr> state = scenario_logger Debug, calls = [], raised = Some (Thrown ''boom'') \<rparr>
   \<and> SimpleLogger_error (scenario_logger Debug) at_A_later failure
     = \<lparr> state = scenario_logger Debug, calls = [(Error, failure_record)], raised = None \<rparr>
   \<and> serializeError custom_error
     = Inr [(''type'', JStr ''Error''), (''message'', JStr ''Oops''),
            (''prop'', JStr ''Custom Exception message'')]"
proof -
  let ?thrown = "\<lparr> error = throwing_error, remainingInfo = [(''name'', JStr ''e'')] \<rparr>"
  let ?custom = "\<lparr> error = custom_error, remainingInfo = [(''name'', JStr ''e'')] \<rparr>"
  have t: "toJSON (error ?thrown) = Some (Throws (Thrown ''boom''))" by code_simp
  have n: "toJSON (error failure) = None
        \<or> (\<exists>v. toJSON (error failure) = Some (Returns v) \<and> own_properties v = [])"
    by (simp add: failure_def plain_error_def)
  have c: "toJSON (error ?custom) = Some (Returns (JObj [(''prop'', JStr ''Custom Exception message'')]))"
    by code_simp
  have raise: "ContextLogger_error (scenario_logger Debug) at_A ?thrown
     = \<lparr> state = scenario_logger Debug, calls = [], raised = Some (Thrown ''boom'') \<rparr>"
    using error_serialization_outcomes[of ?thrown "scenario_logger Debug" at_A "scenario_logger Debug",
        THEN conjunct1, rule_format, OF t] by simp
  have base: "SimpleLogger_error (scenario_logger Debug) at_A_later failure
     = \<lparr> state = scenario_logger Debug, calls = [(Error, failure_record)], raised = None \<rparr>"
    using error_serialization_outcomes[of failure "scenario_logger Debug" at_A_later "scenario_logger Debug",
        THEN conjunct2, THEN conjunct1, rule_format, OF n]
    by (simp add: failure_def plain_error_def failure_record_def at_A_later_def)
  have "\<exists>se. serializeError (error ?custom) = Inr se"
    using error_serialization_outcomes[of ?custom "scenario_logger Debug" at_A "scenario_logger Debug",
        THEN conjunct2, THEN conjunct2, rule_format, OF c] by blast
  moreover have "serializeError (error ?custom)
     = Inr [(''type'', JStr ''Error''), (''message'', JStr ''Oops''),
            (''prop'', JStr ''Custom Exception message'')]" by code_simp
  ultimately show ?thesis using raise base by simp
qed

text \<open>
  The error call on an error whose \<open>toJSON\<close> throws raises, on the simple logger and on
  the context logger, and what was thrown reaches the caller.
\<close>

theorem error_call_raises_counterexample:
  "raised (SimpleLogger_error (SimpleLogger_new (scenario_setup Debug True)) at_A
      \<lparr> error = throwing_error, remainingInfo = [(''name'', JStr ''e'')] \<rparr>) = Some (Thrown ''boom'')
   \<and> raised (ContextLogger_error (scenario_logger Debug) at_A
      \<lparr> error = throwing_error, remainingInfo = [(''name'', JStr ''e'')] \<rparr>) = Some (Thrown ''boom'')
   \<and> serializeError throwing_error = Inl (Thrown ''boom'')"
  by code_simp

section \<open>Where the attachments are merged\<close>

text \<open>
  C8, as the code has it. \<open>formatLog\<close> merges the payload and the current UTC timestamp,
  and nothing else. The attachments are merged by the pino logger, whose mixin calls the
  attachment producer (or yields the empty map when none is configured) each time a
  record is written: for \<open>info\<close>, at the time of the call; for every record written
  during an error call, the replayed debug records included, at the time of the error
  call.
\<close>

theorem attachments_merged_when_written:
  fixes S :: "'a SimpleLogger_scheme"
  shows
  "formatLog amb info = JObj [(''time'', JStr (nowUTC amb)), (''event'', JObj info)]
   \<and> sink_of (SimpleLogger_setup params) amb (calls (SimpleLogger_info S amb info)) =
       (if shouldEmit Info (case level params of None \<Rightarrow> Info | Some l \<Rightarrow> l)
             (case isEnabled params of None \<Rightarrow> True | Some b \<Rightarrow> b)
        then [\<lparr> sink_level = Info,
                attachments = (case logAttachments params of None \<Rightarrow> [] | Some f \<Rightarrow> f amb),
                logged = formatLog amb info \<rparr>]
        else [])
   \<and> (\<forall>s \<in> set (sink_of (logger L) amb' (calls (ContextLogger_error L amb' einfo))).
         attachments s = mixin (logger L) amb')"
proof -
  have "sink_of (SimpleLogger_setup params) amb (calls (SimpleLogger_info S amb info)) =
       (if shouldEmit Info (case level params of None \<Rightarrow> Info | Some l \<Rightarrow> l)
             (case isEnabled params of None \<Rightarrow> True | Some b \<Rightarrow> b)
        then [\<lparr> sink_level = Info,
                attachments = (case logAttachments params of None \<Rightarrow> [] | Some f \<Rightarrow> f amb),
                logged = formatLog amb info \<rparr>]
        else [])"
    by (simp add: SimpleLogger_info_def sink_of_def pino_write_def SimpleLogger_setup_def
        split: option.splits)
  then show ?thesis
    using sink_of_attachments[of "logger L" amb' "calls (ContextLogger_error L amb' einfo)"]
    by (simp add: formatLog_def)
qed

text \<open>
  An info call at the first instant carries the clock of that instant; a debug record
  buffered at the first instant and replayed by an error call five seconds later has the
  time of the debug call and the clock attachment of the error call.
\<close>

theorem attachments_merged_when_written_witness:
  "sink_of (SimpleLogger_setup (scenario_setup Debug True)) at_A
      (calls (SimpleLogger_info (scenario_logger Debug) at_A [(''name'', JStr ''x'')]))
     = [\<lparr> sink_level = Info,
          attachments = [(''executionId'', ''A''), (''clock'', ''2024-01-01T00:00:00.000Z'')],
          logged = JObj [(''time'', JStr ''2024-01-01T00:00:00.000Z''), (''event'', JObj [(''name'', JStr ''x'')])] \<rparr>]
   \<and> list_all (\<lambda>s. attachments s = [(''executionId'', ''A''), (''clock'', ''2024-01-01T00:00:05.000Z'')])
        (sink_of (logger (final_state (scenario_logger Debug) [(at_A, DebugCall [(''name'', JStr ''x'')])]))
           at_A_later
           (calls (ContextLogger_error
              (final_state (scenario_logger Debug) [(at_A, DebugCall [(''name'', JStr ''x'')])])
              at_A_later failure)))"
proof -
  let ?L = "final_state (scenario_logger Debug) [(at_A, DebugCall [(''name'', JStr ''x'')])]"
  have m: "mixin (logger ?L) at_A_later
             = [(''executionId'', ''A''), (''clock'', ''2024-01-01T00:00:05.000Z'')]" by code_simp
  have g: "shouldEmit Info (case level (scenario_setup Debug True) of None \<Rightarrow> Info | Some l \<Rightarrow> l)
             (case isEnabled (scenario_setup Debug True) of None \<Rightarrow> True | Some b \<Rightarrow> b)" by code_simp
  have a: "(case logAttachments (scenario_setup Debug True) of None \<Rightarrow> [] | Some f \<Rightarrow> f at_A)
             = [(''executionId'', ''A''), (''clock'', ''2024-01-01T00:00:00.000Z'')]" by code_simp
  show ?thesis
    using attachments_merged_when_written[of at_A "[(''name'', JStr ''x'')]" "scenario_setup Debug True"
        "scenario_logger Debug" ?L at_A_later failure] m g a
    by (simp add: list_all_iff at_A_def)
qed

text \<open>
  The record that \<open>formatLog\<close> produces has the fields \<open>time\<close> and \<open>event\<close> and no
  attachment, although the logger is configured with a producer; and the debug record
  that the error call replays carries the clock of the error call, not of the debug call.
\<close>

theorem format_without_attachments_counterexample:
  "formatLog at_A [(''name'', JStr ''x'')]
     = JObj [(''time'', JStr ''2024-01-01T00:00:00.000Z''), (''event'', JObj [(''name'', JStr ''x'')])]
   \<and> mixin (logger (scenario_logger Debug)) at_A
     = [(''executionId'', ''A''), (''clock'', ''2024-01-01T00:00:00.000Z'')]
   \<and> sink (scenario_logger Debug)
        [(at_A, DebugCall [(''name'', JStr ''x'')]), (at_A_later, ErrorCall failure)]
     = [\<lparr> sink_level = Error,
          attachments = [(''executionId'', ''A''), (''clock'', ''2024-01-01T00:00:05.000Z'')],
          logged = failure_record \<rparr>,
        \<lparr> sink_level = Info,
          attachments = [(''executionId'', ''A''), (''clock'', ''2024-01-01T00:00:05.000Z'')],
          logged = JObj [(''time'', JStr ''2024-01-01T00:00:00.000Z''), (''event'', JObj [(''name'', JStr ''x'')])] \<rparr>]"
  by code_simp

section \<open>The replay and the threshold\<close>

text \<open>
  C9, as the code has it. The replayed records are handed to the logger at info level and
  pass its gate like any info record. With buffering enabled, an error call whose error
  serializes, on an enabled logger: when the threshold is debug or info, the sink
  observes everything the call hands over, the replayed debug records included; when the
  threshold is warn or error, the sink observes the error record only and the replayed
  records are dropped. A disabled logger writes nothing.
\<close>

theorem replay_passes_the_gate:
  assumes "formatErrorLog amb info = Inr r"
  shows "(enabled (logger L) \<and> level_rank (threshold (logger L)) \<le> level_rank Info \<longrightarrow>
            sink_of (logger L) amb (calls (ContextLogger_error L amb info)) =
              map (\<lambda>k. \<lparr> sink_level = fst k, attachments = mixin (logger L) amb, logged = snd k \<rparr>)
                (calls (ContextLogger_error L amb info)))
       \<and> (enabled (logger L) \<and> level_rank Info < level_rank (threshold (logger L)) \<longrightarrow>
            sink_of (logger L) amb (calls (ContextLogger_error L amb info)) =
              [\<lparr> sink_level = Error, attachments = mixin (logger L) amb, logged = r \<rparr>])
       \<and> (\<not> enabled (logger L) \<longrightarrow>
            sink_of (logger L) amb (calls (ContextLogger_error L amb info)) = [])"
proof -
  let ?cs = "calls (ContextLogger_error L amb info)"
  have shape: "?cs = (Error, r) # tl ?cs" "list_all (\<lambda>k. fst k = Info) (tl ?cs)"
    using error_calls_shape[OF assms, of L] by simp_all
  have split: "sink_of (logger L) amb ?cs
      = pino_write (logger L) amb (Error, r) @ sink_of (logger L) amb (tl ?cs)"
    by (subst shape(1)) (simp add: sink_of_Cons)
  have low: "sink_of (logger L) amb ?cs =
        map (\<lambda>k. \<lparr> sink_level = fst k, attachments = mixin (logger L) amb, logged = snd k \<rparr>) ?cs"
    if g: "enabled (logger L) \<and> level_rank (threshold (logger L)) \<le> level_rank Info"
  proof -
    have "\<forall>k \<in> set ((Error, r) # tl ?cs). level_rank (threshold (logger L)) \<le> level_rank (fst k)"
      using g shape(2) by (auto simp: list_all_iff)
    then have "\<forall>k \<in> set ?cs. level_rank (threshold (logger L)) \<le> level_rank (fst k)"
      by (subst shape(1))
    with g show ?thesis by (intro sink_of_all_open) simp_all
  qed
  have high: "enabled (logger L) \<and> level_rank Info < level_rank (threshold (logger L)) \<Longrightarrow>
      sink_of (logger L) amb ?cs =
        [\<lparr> sink_level = Error, attachments = mixin (logger L) amb, logged = r \<rparr>]"
    using shape(2)
    by (simp add: split sink_of_replayed_closed pino_write_Error)
  show ?thesis
    using low high by (simp add: sink_of_disabled)
qed

text \<open>
  One buffered debug record and an error call: with threshold info the sink observes the
  error record and the replayed record, with threshold warn the error record only.
\<close>

theorem replay_passes_the_gate_witness:
  "sink_of (logger (scenario_logger Info)) at_A_later
     (calls (ContextLogger_error
        (final_state (scenario_logger Info) [(at_A, DebugCall [(''name'', JStr ''x'')])])
        at_A_later failure))
     = [\<lparr> sink_level = Error,
          attachments = [(''executionId'', ''A''), (''clock'', ''2024-01-01T00:00:05.000Z'')],
          logged = failure_record \<rparr>,
        \<lparr> sink_level = Info,
          attachments = [(''executionId'', ''A''), (''clock'', ''2024-01-01T00:00:05.000Z'')],
          logged = formatLog at_A [(''name'', JStr ''x'')] \<rparr>]
   \<and> sink_of (logger (scenario_logger Warn)) at_A_later
     (calls (ContextLogger_error
        (final_state (scenario_logger Warn) [(at_A, DebugCall [(''name'', JStr ''x'')])])
        at_A_later failure))
     = [\<lparr> sink_level = Error,
          attachments = [(''executionId'', ''A''), (''clock'', ''2024-01-01T00:00:05.000Z'')],
          logged = failure_record \<rparr>]"
proof -
  let ?Li = "final_state (scenario_logger Info) [(at_A, DebugCall [(''name'', JStr ''x'')])]"
  let ?Lw = "final_state (scenario_logger Warn) [(at_A, DebugCall [(''name'', JStr ''x'')])]"
  have h: "formatErrorLog at_A_later failure = Inr failure_record" by code_simp
  have li: "logger ?Li = logger (scenario_logger Info)" by (rule final_state_static)
  have lw: "logger ?Lw = logger (scenario_logger Warn)" by (rule final_state_static)
  have gi: "enabled (logger ?Li) \<and> level_rank (threshold (logger ?Li)) \<le> level_rank Info"
    by code_simp
  have gw: "enabled (logger ?Lw) \<and> level_rank Info < level_rank (threshold (logger ?Lw))"
    by code_simp
  have ci: "calls (ContextLogger_error ?Li at_A_later failure)
      = [(Error, failure_record), (Info, formatLog at_A [(''name'', JStr ''x'')])]" by code_simp
  have mi: "mixin (logger (scenario_logger Info)) at_A_later
             = [(''executionId'', ''A''), (''clock'', ''2024-01-01T00:00:05.000Z'')]" by code_simp
  have mw: "mixin (logger (scenario_logger Warn)) at_A_later
             = [(''executionId'', ''A''), (''clock'', ''2024-01-01T00:00:05.000Z'')]" by code_simp
  have a: "sink_of (logger ?Li) at_A_later (calls (ContextLogger_error ?Li at_A_later failure))
      = map (\<lambda>k. \<lparr> sink_level = fst k, attachments = mixin (logger ?Li) at_A_later, logged = snd k \<rparr>)
          (calls (ContextLogger_error ?Li at_A_later failure))"
    using replay_passes_the_gate[OF h, of ?Li, THEN conjunct1, rule_format, OF gi] .
  have b: "sink_of (logger ?Lw) at_A_later (calls (ContextLogger_error ?Lw at_A_later failure))
      = [\<lparr> sink_level = Error, attachments = mixin (logger ?Lw) at_A_later, logged = failure_record \<rparr>]"
    using replay_passes_the_gate[OF h, of ?Lw, THEN conjunct2, THEN conjunct1, rule_format, OF gw] .
  have cw: "calls (ContextLogger_error ?Lw at_A_later failure)
      = [(Error, failure_record), (Info, formatLog at_A [(''name'', JStr ''x'')])]" by code_simp
  show ?thesis
    using a b by (simp only: li lw ci cw mi mw list.map fst_conv snd_conv simp_thms)
qed

text \<open>
  Threshold warn, buffering enabled: after one debug call, the error call writes the
  error record to the sink and the debug record does not surface.
\<close>

theorem replay_dropped_counterexample:
  "sink (scenario_logger Warn)
        [(at_A, DebugCall [(''name'', JStr ''x'')]), (at_A_later, ErrorCall failure)]
     = [\<lparr> sink_level = Error,
          attachments = [(''executionId'', ''A''), (''clock'', ''2024-01-01T00:00:05.000Z'')],
          logged = failure_record \<rparr>]
   \<and> calls (ContextLogger_error
        (final_state (scenario_logger Warn) [(at_A, DebugCall [(''name'', JStr ''x'')])])
        at_A_later failure)
     = [(Error, failure_record), (Info, formatLog at_A [(''name'', JStr ''x'')])]"
  by code_simp

end
